theory Spec2Isabelle
  imports Main "HOL-Library.Word"
begin

unbundle bit_operations_syntax

section \<open>Hexloader: a serial Intel-HEX bootloader for the ATmega328P\<close>

text \<open>
  A shallow embedding of \<^verbatim>\<open>hexloader.c\<close>. The C globals become the fields of one
  record that every function takes and returns; \<^verbatim>\<open>uint8_t\<close>, \<^verbatim>\<open>uint16_t\<close> and
  \<^verbatim>\<open>uint32_t\<close> are words of that width, so arithmetic wraps as on the AVR; a function
  that does not return (it arms the watchdog and spins) or that leaves the bounds of the
  line buffer yields a value of type \<open>stop\<close> on the left of a sum.

  Bytes queued for transmission have no influence on any variable of the program; apart
  from the two hex printing routines they are left out.
\<close>

type_synonym u8 = "8 word"
type_synonym u16 = "16 word"
type_synonym u32 = "32 word"

text \<open>A C character literal: \<^verbatim>\<open>'0'\<close> is \<open>ascii CHR ''0''\<close>, the byte 48.\<close>

abbreviation ascii :: "char \<Rightarrow> u8" where
  "ascii \<equiv> of_char"

subsection \<open>Constants\<close>

abbreviation (input) LF :: u8 where "LF \<equiv> 10"
abbreviation (input) CR :: u8 where "CR \<equiv> 13"
abbreviation (input) ESC :: u8 where "ESC \<equiv> 27"

abbreviation (input) ERROR_RX_DATA_OVERRUN :: u8 where "ERROR_RX_DATA_OVERRUN \<equiv> 1"
abbreviation (input) ERROR_RX_FRAME_ERROR :: u8 where "ERROR_RX_FRAME_ERROR \<equiv> 2"
abbreviation (input) ERROR_RX_BUFFER_OVERFLOW :: u8 where "ERROR_RX_BUFFER_OVERFLOW \<equiv> 4"

abbreviation (input) PAGE_SIZE :: nat where "PAGE_SIZE \<equiv> 128"
abbreviation (input) MAX_LINE_LEN :: nat where "MAX_LINE_LEN \<equiv> 64"

abbreviation (input) BOOTAPP_SIG_1 :: u8 where "BOOTAPP_SIG_1 \<equiv> 0xb0"
abbreviation (input) BOOTAPP_SIG_2 :: u8 where "BOOTAPP_SIG_2 \<equiv> 0xaa"

text \<open>The two modes of \<^verbatim>\<open>flash_hex_line\<close> and the four flash states.\<close>

datatype mode = MODE_FLASH | MODE_VERIFY

datatype flash_status = FLASH_WAITING | FLASH_GOING_ON | FLASH_OK | FLASH_ERROR

subsection \<open>Conversion utils\<close>

definition nibble_to_hex :: "u8 \<Rightarrow> u8" where
  "nibble_to_hex x0 =
     (let x = x0 AND 0xf in
      if 0 \<le> x \<and> x \<le> 9 then x + ascii CHR ''0''
      else x + ascii CHR ''A'' - 10)"

text \<open>Two hex characters packed in a word, the leftmost character in the high byte.\<close>

definition byte_to_hex :: "u8 \<Rightarrow> u16" where
  "byte_to_hex x =
     push_bit 8 (ucast (nibble_to_hex (drop_bit 4 x))) OR ucast (nibble_to_hex (x AND 0xf))"

definition word_to_hex :: "u16 \<Rightarrow> u32" where
  "word_to_hex x =
     push_bit 16 (ucast (byte_to_hex (ucast (drop_bit 8 x))))
       OR ucast (byte_to_hex (ucast (x AND 0xff)))"

definition hex_nibble_to_dec :: "u8 \<Rightarrow> u8" where
  "hex_nibble_to_dec x =
     (if ascii CHR ''0'' \<le> x \<and> x \<le> ascii CHR ''9'' then x - ascii CHR ''0''
      else if ascii CHR ''A'' \<le> x \<and> x \<le> ascii CHR ''F'' then x - ascii CHR ''A'' + 10
      else if ascii CHR ''a'' \<le> x \<and> x \<le> ascii CHR ''f'' then x - ascii CHR ''a'' + 10
      else 0)"

text \<open>
  The argument \<^verbatim>\<open>char *s\<close> is the part of the buffer from the pointer on: \<^verbatim>\<open>line + k\<close>
  is \<open>drop k line\<close>. The function reads \<^verbatim>\<open>s[0]\<close> and \<^verbatim>\<open>s[1]\<close>; where the buffer ends
  before them the C program reads outside the array, and the result is \<open>None\<close>.
\<close>

definition hex_byte_to_dec :: "u8 list \<Rightarrow> u8 option" where
  "hex_byte_to_dec s =
     (case s of
        c0 # c1 # _ \<Rightarrow> Some (16 * hex_nibble_to_dec c0 + hex_nibble_to_dec c1)
      | _ \<Rightarrow> None)"

definition hex_word_to_dec :: "u8 list \<Rightarrow> u16 option" where
  "hex_word_to_dec s =
     (case (hex_byte_to_dec s, hex_byte_to_dec (drop 2 s)) of
        (Some hi, Some lo) \<Rightarrow> Some (256 * ucast hi + ucast lo)
      | _ \<Rightarrow> None)"

text \<open>
  The hex printing routines hand the packed characters to \<^verbatim>\<open>uart_send_byte\<close> one by
  one; the result is the list of bytes sent, in order.
\<close>

definition uart_send_byte_hex :: "u8 \<Rightarrow> u8 list" where
  "uart_send_byte_hex x =
     (let h = byte_to_hex x in [ucast (drop_bit 8 h), ucast (h AND 0xff)])"

definition uart_send_int_hex :: "u16 \<Rightarrow> u8 list" where
  "uart_send_int_hex x =
     (let h = word_to_hex x in
      [ucast (drop_bit 24 h), ucast (drop_bit 16 h AND 0xff),
       ucast (drop_bit 8 h AND 0xff), ucast (h AND 0xff)])"

subsection \<open>The program state\<close>

text \<open>
  The globals of the program, the two \<^verbatim>\<open>static\<close> locals (\<open>len\<close> of \<^verbatim>\<open>get_line\<close>,
  \<open>last_address\<close> of \<^verbatim>\<open>flash_hex_line\<close>) and the hardware the program acts on:
  \<^item> \<open>line\<close> is \<^verbatim>\<open>char line[MAX_LINE_LEN]\<close> and \<open>page\<close> is \<^verbatim>\<open>uint8_t page[PAGE_SIZE]\<close>;
  \<^item> \<open>flash\<close> is the program memory, one byte per byte address, as \<^verbatim>\<open>pgm_read_byte\<close>
    reads it;
  \<^item> \<open>page_writes\<close> is the trace of the page writes committed so far, oldest first: the
    byte address given to each \<^verbatim>\<open>boot_page_write\<close>;
  \<^item> \<open>r2\<close> and \<open>r3\<close> are the two registers that hold the boot signature, \<open>MCUSR\<close>
    the register of the reset causes, \<open>wdt_enabled\<close> says whether the watchdog is armed.
  The receive interrupt is not part of the model: \<open>uart_error\<close> holds what it latched,
  and the bytes it delivers are an argument of the functions that poll the UART.
\<close>

record state =
  line :: "u8 list"
  len :: u8
  page :: "u8 list"
  current_page_address :: u16
  last_address :: u16
  flash :: "u16 \<Rightarrow> u8"
  page_writes :: "u16 list"
  uart_error :: u8
  MCUSR :: u8
  r2 :: u8
  r3 :: u8
  wdt_enabled :: bool

text \<open>
  How a call ends when it does not return: \<open>Reboot s\<close>, the watchdog is armed in state
  \<open>s\<close> and the program idles until the reset; \<open>Overrun k\<close>, the program accessed the
  line buffer at offset \<open>k\<close>, outside the array (undefined behaviour in C).
\<close>

datatype stop = Reboot state | Overrun nat

subsection \<open>Reboot functions\<close>

text \<open>
  Modelled from the spec: \<^verbatim>\<open>wdt_enable\<close> and \<^verbatim>\<open>wdt_disable\<close> belong to the toolchain's
  \<^verbatim>\<open>avr/wdt.h\<close>, which is not in the repository; they arm and disarm the watchdog.
\<close>

definition wdt_enable :: "state \<Rightarrow> state" where
  "wdt_enable s = s\<lparr>wdt_enabled := True\<rparr>"

definition wdt_disable :: "state \<Rightarrow> state" where
  "wdt_disable s = s\<lparr>wdt_enabled := False\<rparr>"

definition reboot :: "state \<Rightarrow> stop" where
  "reboot s = Reboot (wdt_enable s)"

definition reboot_to_bootloader :: "state \<Rightarrow> stop" where
  "reboot_to_bootloader s = reboot (s\<lparr>r2 := 0, r3 := 0\<rparr>)"

definition reboot_to_app :: "state \<Rightarrow> stop" where
  "reboot_to_app s = Reboot (wdt_enable (s\<lparr>r2 := BOOTAPP_SIG_1, r3 := BOOTAPP_SIG_2\<rparr>))"

subsection \<open>Input parsing\<close>

text \<open>A store \<^verbatim>\<open>line[k] = v\<close>; outside the array it is an overrun.\<close>

definition line_store :: "nat \<Rightarrow> u8 \<Rightarrow> state \<Rightarrow> stop + state" where
  "line_store k v s =
     (if k < length (line s) then Inr (s\<lparr>line := (line s)[k := v]\<rparr>) else Inl (Overrun k))"

text \<open>
  One call of \<^verbatim>\<open>get_line\<close>. The argument \<open>rx\<close> is what the UART has for this call:
  \<open>None\<close> when \<^verbatim>\<open>uart_available()\<close> is false, \<open>Some c\<close> when \<^verbatim>\<open>uart_recv_byte()\<close>
  returns \<open>c\<close>. The result is the return value (is a line ready?) and the new state.
\<close>

definition get_line :: "u8 option \<Rightarrow> state \<Rightarrow> stop + (bool \<times> state)" where
  "get_line rx s =
     (if uart_error s AND ERROR_RX_BUFFER_OVERFLOW \<noteq> 0 then Inl (reboot_to_bootloader s)
      else if uart_error s AND ERROR_RX_DATA_OVERRUN \<noteq> 0 then Inl (reboot_to_bootloader s)
      else
        (case rx of
           None \<Rightarrow> Inr (False, s)
         | Some c \<Rightarrow>
             if c = ESC then
               (case line_store 0 0 s of
                  Inl e \<Rightarrow> Inl e
                | Inr s1 \<Rightarrow> Inr (True, s1\<lparr>len := 0\<rparr>))
             else if c = CR \<or> c = LF then
               (case line_store (unat (len s)) 0 s of
                  Inl e \<Rightarrow> Inl e
                | Inr s1 \<Rightarrow>
                    if len s1 > 0 then Inr (True, s1\<lparr>len := 0\<rparr>) else Inr (False, s1))
             else if unat (len s) < MAX_LINE_LEN - 1 then
               (case line_store (unat (len s)) c s of
                  Inl e \<Rightarrow> Inl e
                | Inr s1 \<Rightarrow> Inr (False, s1\<lparr>len := len s1 + 1\<rparr>))
             else if unat (len s) = MAX_LINE_LEN - 1 then
               (case line_store (unat (len s)) 0 s of
                  Inl e \<Rightarrow> Inl e
                | Inr s1 \<Rightarrow> Inr (False, s1\<lparr>len := len s1 + 1\<rparr>))
             else Inr (False, s)))"

subsection \<open>Flashing functions\<close>

definition new_page :: "state \<Rightarrow> state" where
  "new_page s = s\<lparr>page := replicate PAGE_SIZE 0xff\<rparr>"

text \<open>
  Modelled from the spec: the self-programming macros \<^verbatim>\<open>boot_page_erase\<close>,
  \<^verbatim>\<open>boot_page_fill\<close> and \<^verbatim>\<open>boot_page_write\<close> belong to the toolchain's \<^verbatim>\<open>avr/boot.h\<close>,
  which is not in the repository. The spec has the erase of the flash page at the given
  address, the transfer of every two-byte little-endian pair and the commit of the page.
  The model keeps their net effect on the program memory: the erase sets the 128 bytes
  of the page to \<open>0xff\<close>, a fill puts the low byte of the word at the address and the
  high byte after it, and the commit is recorded in the trace.
\<close>

definition boot_page_erase :: "u16 \<Rightarrow> (u16 \<Rightarrow> u8) \<Rightarrow> (u16 \<Rightarrow> u8)" where
  "boot_page_erase a f = (\<lambda>x. if x div 128 = a div 128 then 0xff else f x)"

definition boot_page_fill :: "u16 \<Rightarrow> u16 \<Rightarrow> (u16 \<Rightarrow> u8) \<Rightarrow> (u16 \<Rightarrow> u8)" where
  "boot_page_fill a w f = f(a := ucast w, a + 1 := ucast (drop_bit 8 w))"

definition boot_page_write :: "u16 \<Rightarrow> u16 list \<Rightarrow> u16 list" where
  "boot_page_write a tr = tr @ [a]"

text \<open>
  The loop \<^verbatim>\<open>for (i = 0; i < PAGE_SIZE; i += 2)\<close> of \<^verbatim>\<open>write_current_page\<close>:
  \<open>fill_upto n\<close> is its first \<open>n\<close> iterations, \<open>fill_words\<close> all 64 of them.
\<close>

definition fill_upto :: "nat \<Rightarrow> u16 \<Rightarrow> u8 list \<Rightarrow> (u16 \<Rightarrow> u8) \<Rightarrow> (u16 \<Rightarrow> u8)" where
  "fill_upto n base pg f =
     fold (\<lambda>i g. boot_page_fill (base + of_nat i)
                    (ucast (pg ! i) OR push_bit 8 (ucast (pg ! (i + 1)))) g)
          (map (\<lambda>k. 2 * k) [0..<n]) f"

definition fill_words :: "u16 \<Rightarrow> u8 list \<Rightarrow> (u16 \<Rightarrow> u8) \<Rightarrow> (u16 \<Rightarrow> u8)" where
  "fill_words base pg f = fill_upto (PAGE_SIZE div 2) base pg f"

definition write_current_page :: "state \<Rightarrow> state" where
  "write_current_page s =
     (let base = current_page_address s * of_nat PAGE_SIZE in
      s\<lparr>flash := fill_words base (page s) (boot_page_erase base (flash s)),
        page_writes := boot_page_write base (page_writes s)\<rparr>)"

definition is_address_valid :: "u16 \<Rightarrow> u16 \<Rightarrow> bool" where
  "is_address_valid last_addr address =
     (if last_addr = 0xffff \<and> address \<noteq> 0 then False
      else if last_addr \<noteq> 0xffff \<and> address < last_addr then False
      else True)"

text \<open>
  The \<^verbatim>\<open>MODE_FLASH\<close> branch of the loop body of \<^verbatim>\<open>flash_hex_line\<close>, for the data byte
  \<open>b\<close> at position \<open>i\<close>. The sum \<^verbatim>\<open>address + i\<close> is computed in 16 bits.
\<close>

definition flash_byte :: "u16 \<Rightarrow> nat \<Rightarrow> u8 \<Rightarrow> state \<Rightarrow> state" where
  "flash_byte address i b s =
     (let a = address + of_nat i;
          s1 = (if a div of_nat PAGE_SIZE \<noteq> current_page_address s
                then (new_page (write_current_page s))
                       \<lparr>current_page_address := a div of_nat PAGE_SIZE\<rparr>
                else s)
      in s1\<lparr>page := (page s1)[unat (a mod of_nat PAGE_SIZE) := b]\<rparr>)"

text \<open>
  The loop \<^verbatim>\<open>for (i = 0; i < count; i++)\<close>, from position \<open>i\<close> with the running
  checksum. It ends with the checksum, or leaves \<^verbatim>\<open>flash_hex_line\<close> at a byte that
  differs from the flash (\<open>Mismatch\<close>, the function then returns \<^verbatim>\<open>FLASH_ERROR\<close>).
\<close>

datatype loop_exit = Completed u8 | Mismatch

function data_loop ::
  "mode \<Rightarrow> u16 \<Rightarrow> nat \<Rightarrow> nat \<Rightarrow> u8 \<Rightarrow> state \<Rightarrow> stop + (loop_exit \<times> state)" where
  "data_loop mode address count i checksum s =
     (if i < count then
        (case hex_byte_to_dec (drop (9 + i * 2) (line s)) of
           None \<Rightarrow> Inl (Overrun (9 + i * 2))
         | Some b \<Rightarrow>
             (case mode of
                MODE_FLASH \<Rightarrow>
                  data_loop mode address count (Suc i) (checksum + b) (flash_byte address i b s)
              | MODE_VERIFY \<Rightarrow>
                  if flash s (address + of_nat i) \<noteq> b then Inr (Mismatch, s)
                  else data_loop mode address count (Suc i) (checksum + b) s))
      else Inr (Completed checksum, s))"
  by pat_completeness auto
termination
  by (relation "measure (\<lambda>(mode, address, count, i, checksum, s). count - i)") auto

declare data_loop.simps [simp del]

definition flash_hex_line :: "mode \<Rightarrow> state \<Rightarrow> stop + (flash_status \<times> state)" where
  "flash_hex_line mode s =
     (case hex_byte_to_dec (drop 1 (line s)) of
        None \<Rightarrow> Inl (Overrun 1)
      | Some count \<Rightarrow>
     (case hex_word_to_dec (drop 3 (line s)) of
        None \<Rightarrow> Inl (Overrun 3)
      | Some address \<Rightarrow>
     (case hex_byte_to_dec (drop 7 (line s)) of
        None \<Rightarrow> Inl (Overrun 7)
      | Some record_type \<Rightarrow>
          if record_type = 0 \<and> \<not> is_address_valid (last_address s) address
          then Inr (FLASH_ERROR, s)
          else
            (case data_loop mode address (unat count) 0
                    (count + ucast address + ucast (drop_bit 8 address) + record_type) s of
               Inl e \<Rightarrow> Inl e
             | Inr (Mismatch, s1) \<Rightarrow> Inr (FLASH_ERROR, s1)
             | Inr (Completed checksum, s1) \<Rightarrow>
                 (case hex_byte_to_dec (drop (9 + unat count * 2) (line s1)) of
                    None \<Rightarrow> Inl (Overrun (9 + unat count * 2))
                  | Some c \<Rightarrow>
                      if checksum + c \<noteq> 0 then Inr (FLASH_ERROR, s1)
                      else if record_type = 1 then
                        (case mode of
                           MODE_FLASH \<Rightarrow>
                             Inr (FLASH_OK,
                                  (new_page (write_current_page s1))
                                    \<lparr>current_page_address := 0, last_address := 0xffff\<rparr>)
                         | MODE_VERIFY \<Rightarrow> Inr (FLASH_OK, s1))
                      else
                        Inr (FLASH_GOING_ON,
                             s1\<lparr>last_address := address + ucast count - 1\<rparr>))))))"

subsection \<open>Bootloader sequence\<close>

text \<open>
  \<^verbatim>\<open>run_command\<close> dispatches on \<^verbatim>\<open>line[0]\<close>: \<^verbatim>\<open>'q'\<close> and \<^verbatim>\<open>'r'\<close> reboot, every other
  command only prints.
\<close>

definition run_command :: "state \<Rightarrow> stop + state" where
  "run_command s =
     (case line s of
        [] \<Rightarrow> Inl (Overrun 0)
      | c # _ \<Rightarrow>
          if c = ascii CHR ''q'' then Inl (reboot_to_app s)
          else if c = ascii CHR ''r'' then Inl (reboot_to_bootloader s)
          else Inr s)"

text \<open>
  The body of the \<^verbatim>\<open>do ... while\<close> loop of \<^verbatim>\<open>bootloader\<close>: one call of \<^verbatim>\<open>get_line\<close>
  and, when a line is ready, its dispatch.
\<close>

definition loop_body ::
  "mode \<Rightarrow> flash_status \<Rightarrow> u8 option \<Rightarrow> state \<Rightarrow> stop + (flash_status \<times> state)" where
  "loop_body mode flash_status rx s =
     (case get_line rx s of
        Inl e \<Rightarrow> Inl e
      | Inr (ready, s1) \<Rightarrow>
          if ready then
            (case line s1 of
               [] \<Rightarrow> Inl (Overrun 0)
             | c # _ \<Rightarrow>
                 if c = ascii CHR '':'' then flash_hex_line mode s1
                 else
                   (case run_command s1 of
                      Inl e \<Rightarrow> Inl e
                    | Inr s2 \<Rightarrow> Inr (flash_status, s2)))
          else Inr (flash_status, s1))"

text \<open>
  One pass, over the bytes that the UART delivers during it. An iteration that finds no
  byte changes nothing, so the loop is a recursion over the bytes; when they are used up
  while the status is still \<^verbatim>\<open>FLASH_WAITING\<close> or \<^verbatim>\<open>FLASH_GOING_ON\<close> the loop polls on
  (\<open>Pass_Starved\<close>). \<open>Pass_Ended\<close> carries the status that ended the loop, the state
  and the bytes not yet read.
\<close>

datatype pass_result =
  Pass_Ended flash_status state "u8 list"
| Pass_Stopped stop
| Pass_Starved flash_status state

fun pass_loop :: "mode \<Rightarrow> flash_status \<Rightarrow> state \<Rightarrow> u8 list \<Rightarrow> pass_result" where
  "pass_loop mode flash_status s [] =
     (case loop_body mode flash_status None s of
        Inl e \<Rightarrow> Pass_Stopped e
      | Inr (fs, s1) \<Rightarrow> Pass_Starved fs s1)"
| "pass_loop mode flash_status s (c # cs) =
     (case loop_body mode flash_status (Some c) s of
        Inl e \<Rightarrow> Pass_Stopped e
      | Inr (fs, s1) \<Rightarrow>
          if fs = FLASH_GOING_ON \<or> fs = FLASH_WAITING then pass_loop mode fs s1 cs
          else Pass_Ended fs s1 cs)"

text \<open>
  The loop \<^verbatim>\<open>for (mode = MODE_FLASH; mode <= MODE_VERIFY; mode++)\<close> over the modes still
  to run, and \<^verbatim>\<open>reboot_to_app\<close> after it. \<^verbatim>\<open>bootloader\<close> never returns: it ends in a
  \<open>stop\<close>, or polls for input for ever (\<open>Waiting\<close>).
\<close>

datatype run = Halt stop | Waiting state

fun passes :: "mode list \<Rightarrow> state \<Rightarrow> u8 list \<Rightarrow> run" where
  "passes [] s input = Halt (reboot_to_app s)"
| "passes (mode # modes) s input =
     (case pass_loop mode FLASH_WAITING s input of
        Pass_Ended flash_status s1 rest \<Rightarrow>
          if flash_status \<noteq> FLASH_OK then Halt (reboot_to_bootloader s1)
          else passes modes s1 rest
      | Pass_Stopped e \<Rightarrow> Halt e
      | Pass_Starved flash_status s1 \<Rightarrow> Waiting s1)"

definition bootloader :: "state \<Rightarrow> u8 list \<Rightarrow> run" where
  "bootloader s input = passes [MODE_FLASH, MODE_VERIFY] (new_page s) input"

text \<open>
  Modelled from the spec: the bits of \<^verbatim>\<open>MCUSR\<close> and the macro \<^verbatim>\<open>_BV\<close> belong to the
  toolchain's \<^verbatim>\<open>avr/io.h\<close>, which is not in the repository. The spec has two reset-cause
  flags, external reset and watchdog reset; on the ATmega328P they are bit 1 and bit 3.
\<close>

abbreviation (input) EXTRF :: nat where "EXTRF \<equiv> 1"
abbreviation (input) WDRF :: nat where "WDRF \<equiv> 3"

definition BV :: "nat \<Rightarrow> u8" where
  "BV n = push_bit n 1"

definition BOOT_APP :: "state \<Rightarrow> bool" where
  "BOOT_APP s \<longleftrightarrow> r2 s = BOOTAPP_SIG_1 \<and> r3 s = BOOTAPP_SIG_2"

text \<open>
  \<^verbatim>\<open>main\<close> either jumps to the application at address 0 or runs the bootloader on the
  bytes that the UART will deliver.
\<close>

datatype boot = Jump_To_App state | Bootloader run

definition main :: "state \<Rightarrow> u8 list \<Rightarrow> boot" where
  "main s input =
     (let s1 = (if MCUSR s AND BV WDRF \<noteq> 0 \<and> BOOT_APP s then wdt_disable s else s) in
      if MCUSR s1 AND (BV EXTRF OR BV WDRF) = 0 \<or> BOOT_APP s1
      then Jump_To_App (s1\<lparr>r2 := 0, r3 := 0\<rparr>)
      else Bootloader (bootloader (s1\<lparr>r2 := BOOTAPP_SIG_1, r3 := BOOTAPP_SIG_2\<rparr>) input))"

subsection \<open>Intel-HEX records, as the specification names their parts\<close>

text \<open>
  A record is \<^verbatim>\<open>:CCAAAATTDD...DDSS\<close>. These definitions follow the specification, not
  the code: the field of two hex digits at offset \<open>k\<close> of a line, the byte count, the
  address, the record type, the data byte at position \<open>i\<close>, the trailing checksum
  byte, and the sum of them all modulo 256, which a valid record makes zero.
  \<open>record_fits\<close> says that the whole record lies inside the buffer.
\<close>

definition is_hex_digit :: "u8 \<Rightarrow> bool" where
  "is_hex_digit c \<longleftrightarrow>
     (ascii CHR ''0'' \<le> c \<and> c \<le> ascii CHR ''9'') \<or>
     (ascii CHR ''A'' \<le> c \<and> c \<le> ascii CHR ''F'') \<or>
     (ascii CHR ''a'' \<le> c \<and> c \<le> ascii CHR ''f'')"

definition hex_field :: "u8 list \<Rightarrow> nat \<Rightarrow> u8" where
  "hex_field ln k = 16 * hex_nibble_to_dec (ln ! k) + hex_nibble_to_dec (ln ! Suc k)"

definition rec_count :: "u8 list \<Rightarrow> u8" where
  "rec_count ln = hex_field ln 1"

definition rec_address :: "u8 list \<Rightarrow> u16" where
  "rec_address ln = 256 * ucast (hex_field ln 3) + ucast (hex_field ln 5)"

definition rec_type :: "u8 list \<Rightarrow> u8" where
  "rec_type ln = hex_field ln 7"

definition rec_data :: "u8 list \<Rightarrow> nat \<Rightarrow> u8" where
  "rec_data ln i = hex_field ln (9 + i * 2)"

definition rec_check :: "u8 list \<Rightarrow> u8" where
  "rec_check ln = hex_field ln (9 + unat (rec_count ln) * 2)"

definition record_fits :: "u8 list \<Rightarrow> bool" where
  "record_fits ln \<longleftrightarrow> 11 + unat (rec_count ln) * 2 \<le> length ln"

definition record_checksum :: "u8 list \<Rightarrow> u8" where
  "record_checksum ln =
     rec_count ln + ucast (rec_address ln) + ucast (drop_bit 8 (rec_address ln)) + rec_type ln
       + sum_list (map (rec_data ln) [0..<unat (rec_count ln)]) + rec_check ln"

subsection \<open>Runs of the program on concrete input\<close>

text \<open>
  \<open>reset_state\<close> is the machine after an external reset with erased flash: the
  variables as the C start-up code initialises them, no signature in \<open>r2\<close>/\<open>r3\<close>.
  \<open>entry_state\<close> is the state in which \<^verbatim>\<open>main\<close> then calls \<^verbatim>\<open>bootloader\<close>, and
  \<open>first_pass_state\<close> the one in which the first pass starts.
\<close>

definition reset_state :: state where
  "reset_state =
     \<lparr>line = replicate MAX_LINE_LEN 0, len = 0, page = replicate PAGE_SIZE 0,
      current_page_address = 0, last_address = 0xffff, flash = (\<lambda>_. 0xff),
      page_writes = [], uart_error = 0, MCUSR = BV EXTRF, r2 = 0, r3 = 0,
      wdt_enabled = False\<rparr>"

definition entry_state :: state where
  "entry_state = reset_state\<lparr>r2 := BOOTAPP_SIG_1, r3 := BOOTAPP_SIG_2\<rparr>"

definition first_pass_state :: state where
  "first_pass_state = new_page entry_state"

text \<open>
  The line buffer once \<^verbatim>\<open>get_line\<close> has completed the line \<open>str\<close> in a buffer that
  held zeros: the characters, then zeros up to \<^verbatim>\<open>MAX_LINE_LEN\<close>.
\<close>

definition buffer_of :: "string \<Rightarrow> u8 list" where
  "buffer_of str = take MAX_LINE_LEN (map ascii str @ replicate MAX_LINE_LEN 0)"

definition with_line :: "string \<Rightarrow> state \<Rightarrow> state" where
  "with_line str s = s\<lparr>line := buffer_of str\<rparr>"

text \<open>
  What a pass does with a sequence of completed record lines: each one is handed to
  \<^verbatim>\<open>flash_hex_line\<close> while the status is \<^verbatim>\<open>FLASH_WAITING\<close> or \<^verbatim>\<open>FLASH_GOING_ON\<close>.
\<close>

fun flash_lines ::
  "mode \<Rightarrow> flash_status \<Rightarrow> string list \<Rightarrow> state \<Rightarrow> stop + (flash_status \<times> state)" where
  "flash_lines mode flash_status [] s = Inr (flash_status, s)"
| "flash_lines mode flash_status (l # ls) s =
     (if flash_status = FLASH_GOING_ON \<or> flash_status = FLASH_WAITING then
        (case flash_hex_line mode (with_line l s) of
           Inl e \<Rightarrow> Inl e
         | Inr (fs, s1) \<Rightarrow> flash_lines mode fs ls s1)
      else Inr (flash_status, s))"

text \<open>The number of data bytes that the records of an image carry.\<close>

definition image_size :: "string list \<Rightarrow> nat" where
  "image_size ls = sum_list (map (\<lambda>l. unat (rec_count (buffer_of l))) ls)"

text \<open>
  The page writes committed while the data records of an image are flashed, before its
  end-of-file record: the intermediate page flushes.
\<close>

definition intermediate_flushes :: "string list \<Rightarrow> state \<Rightarrow> u16 list option" where
  "intermediate_flushes ls s =
     (case flash_lines MODE_FLASH FLASH_WAITING ls s of
        Inr (FLASH_GOING_ON, s1) \<Rightarrow> Some (drop (length (page_writes s)) (page_writes s1))
      | _ \<Rightarrow> None)"

text \<open>
  The staged page index and the trace of page writes along the data loop in
  \<^verbatim>\<open>MODE_FLASH\<close>, without the rest of the state.
\<close>

function page_walk :: "u16 \<Rightarrow> nat \<Rightarrow> nat \<Rightarrow> u16 \<times> u16 list \<Rightarrow> u16 \<times> u16 list" where
  "page_walk address count i t =
     (if i < count then
        page_walk address count (Suc i)
          (if (address + of_nat i) div of_nat PAGE_SIZE \<noteq> fst t
           then ((address + of_nat i) div of_nat PAGE_SIZE, snd t @ [fst t * of_nat PAGE_SIZE])
           else t)
      else t)"
  by pat_completeness auto
termination
  by (relation "measure (\<lambda>(address, count, i, t). count - i)") auto

declare page_walk.simps [simp del]

text \<open>
  The same for a sequence of data records with valid checksums: the last address, the
  staged page index and the trace after them, or \<open>None\<close> when a line is not such a
  record or its address is refused.
\<close>

fun walk_lines ::
  "string list \<Rightarrow> u16 \<times> u16 \<times> u16 list \<Rightarrow> (u16 \<times> u16 \<times> u16 list) option" where
  "walk_lines [] t = Some t"
| "walk_lines (l # ls) t =
     (let ln = buffer_of l in
      if record_fits ln \<and> rec_type ln = 0 \<and> record_checksum ln = 0
         \<and> is_address_valid (fst t) (rec_address ln)
      then walk_lines ls
             (rec_address ln + ucast (rec_count ln) - 1,
              page_walk (rec_address ln) (unat (rec_count ln)) 0 (snd t))
      else None)"

text \<open>A contiguous image of 300 bytes at address 0, in records of 16 bytes.\<close>

definition image300 :: "string list" where
  "image300 =
    [
     '':10000000000102030405060708090A0B0C0D0E0F78'',
     '':10001000101112131415161718191A1B1C1D1E1F68'',
     '':10002000202122232425262728292A2B2C2D2E2F58'',
     '':10003000303132333435363738393A3B3C3D3E3F48'',
     '':10004000404142434445464748494A4B4C4D4E4F38'',
     '':10005000505152535455565758595A5B5C5D5E5F28'',
     '':10006000606162636465666768696A6B6C6D6E6F18'',
     '':10007000707172737475767778797A7B7C7D7E7F08'',
     '':10008000808182838485868788898A8B8C8D8E8FF8'',
     '':10009000909192939495969798999A9B9C9D9E9FE8'',
     '':1000A000A0A1A2A3A4A5A6A7A8A9AAABACADAEAFD8'',
     '':1000B000B0B1B2B3B4B5B6B7B8B9BABBBCBDBEBFC8'',
     '':1000C000C0C1C2C3C4C5C6C7C8C9CACBCCCDCECFB8'',
     '':1000D000D0D1D2D3D4D5D6D7D8D9DADBDCDDDEDFA8'',
     '':1000E000E0E1E2E3E4E5E6E7E8E9EAEBECEDEEEF98'',
     '':1000F000F0F1F2F3F4F5F6F7F8F9FAFBFCFDFEFF88'',
     '':10010000000102030405060708090A0B0C0D0E0F77'',
     '':10011000101112131415161718191A1B1C1D1E1F67'',
     '':0C012000202122232425262728292A2B11'']"

text \<open>The ninth record of the image, the first one in the second page.\<close>

definition page1_line :: string where
  "page1_line = '':10008000808182838485868788898A8B8C8D8E8FF8''"

text \<open>The end-of-file record.\<close>

definition eof_line :: string where
  "eof_line = '':00000001FF''"

text \<open>A record whose checksum byte is wrong (it should be \<^verbatim>\<open>AA\<close>).\<close>

definition bad_checksum_line :: string where
  "bad_checksum_line = '':010000005500''"

text \<open>An extended linear address record (type 4) with a valid checksum.\<close>

definition type4_line :: string where
  "type4_line = '':020000040000FA''"

text \<open>
  Three data records with valid checksums: one byte at address 0, one byte at address
  \<open>0xffff\<close>, one byte at address 0 again.
\<close>

definition regress_lines :: "string list" where
  "regress_lines = ['':01000000AA55'', '':01FFFF00BB46'', '':01000000CC33'']"

text \<open>A first data record at address 5, with a valid checksum.\<close>

definition address5_line :: string where
  "address5_line = '':0100050055A5''"

text \<open>A data record that matches erased flash, with a valid checksum.\<close>

definition erased_byte_line :: string where
  "erased_byte_line = '':01000000FF00''"

text \<open>The command \<^verbatim>\<open>q\<close> and a carriage return; 64 letters and a carriage return.\<close>

definition q_input :: "u8 list" where
  "q_input = [ascii CHR ''q'', CR]"

definition long_input :: "u8 list" where
  "long_input = replicate MAX_LINE_LEN (ascii CHR ''A'') @ [CR]"

text \<open>The bytes of a sequence of lines on the wire, each line ended by a carriage return.\<close>

definition serial :: "string list \<Rightarrow> u8 list" where
  "serial ls = concat (map (\<lambda>l. map ascii l @ [CR]) ls)"

text \<open>
  The state in which the command \<^verbatim>\<open>q\<close>, typed at the first prompt, leaves the machine:
  the line buffer holds the command, the signature is the one that requests the
  application, and the watchdog is armed.
\<close>

definition q_final :: state where
  "q_final =
     first_pass_state
       \<lparr>line := ascii CHR ''q'' # replicate (MAX_LINE_LEN - 1) 0,
        r2 := BOOTAPP_SIG_1, r3 := BOOTAPP_SIG_2, wdt_enabled := True\<rparr>"

section \<open>Properties of the conversion routines\<close>

text \<open>A property of the 16 nibble values can be checked value by value.\<close>

lemma all_nibbles:
  "(\<forall>x::u8. x \<le> 15 \<longrightarrow> P x) = list_all (\<lambda>n. P (of_nat n)) [0..<16]"
proof -
  have "P x" if "\<forall>n<16. P (of_nat n)" and "x \<le> 15" for x
  proof -
    have "unat x < 16"
      using that(2) by (simp add: word_le_nat_alt)
    with that have "P (of_nat (unat x))"
      by blast
    then show ?thesis
      by simp
  qed
  moreover have "(of_nat n :: u8) \<le> 15" if "n < 16" for n
    using that by (simp add: word_le_nat_alt unat_of_nat)
  ultimately show ?thesis
    by (auto simp: list_all_iff)
qed

lemma nibble_round_trip: "\<forall>x::u8. x \<le> 15 \<longrightarrow> hex_nibble_to_dec (nibble_to_hex x) = x"
  unfolding all_nibbles by code_simp

lemma split_byte: "16 * drop_bit 4 b + (b AND 0xf) = (b::u8)"
proof -
  have "(0xf :: u8) = mask 4"
    by (simp add: mask_eq_exp_minus_1)
  then have "b AND 0xf = take_bit 4 b"
    by (simp add: take_bit_eq_mask)
  moreover have "16 * drop_bit 4 b = push_bit 4 (drop_bit 4 b)"
    by (simp add: push_bit_eq_mult)
  ultimately show ?thesis
    using bits_ident [of 4 b] by simp
qed

lemma high_nibble_le: "drop_bit 4 (b::u8) \<le> 15"
proof -
  have "unat b < 256"
    using unsigned_less [of b, where 'a = nat] by simp
  then have "unat b div 16 \<le> 15"
    by simp
  then show ?thesis
    by (simp add: word_le_nat_alt unat_drop_bit_eq) (simp add: drop_bit_eq_div)
qed

lemma low_nibble_le: "(b::u8) AND 0xf \<le> 15"
  by (rule word_and_le1)

lemma mask8_u16: "(255 :: u16) = mask 8"
  by (simp add: mask_eq_exp_minus_1)

lemma mask8_u32: "(255 :: u32) = mask 8"
  by (simp add: mask_eq_exp_minus_1)

lemma unpack_hi: "ucast (drop_bit 8 (push_bit 8 (ucast (a::u8)) OR ucast (b::u8) :: u16)) = a"
  by (rule bit_word_eqI) (auto simp: bit_simps dest: bit_imp_le_length)

lemma unpack_lo: "ucast ((push_bit 8 (ucast (a::u8)) OR ucast (b::u8) :: u16) AND 0xff) = b"
  unfolding mask8_u16
  by (rule bit_word_eqI) (auto simp: bit_simps dest: bit_imp_le_length)

lemma uart_send_byte_hex_nibbles:
  "uart_send_byte_hex x = [nibble_to_hex (drop_bit 4 x), nibble_to_hex (x AND 0xf)]"
  unfolding uart_send_byte_hex_def byte_to_hex_def Let_def
  by (simp only: unpack_hi unpack_lo)

lemma hex_byte_round_trip: "hex_byte_to_dec (uart_send_byte_hex b @ rest) = Some b"
  using nibble_round_trip high_nibble_le [of b] low_nibble_le [of b] split_byte [of b]
  by (simp add: uart_send_byte_hex_nibbles hex_byte_to_dec_def)

lemma unpack4:
  fixes a b :: u16
  defines "h \<equiv> (push_bit 16 (ucast a) OR ucast b :: u32)"
  shows "(ucast (drop_bit 24 h) :: u8) = ucast (drop_bit 8 a)"
    and "(ucast (drop_bit 16 h AND 0xff) :: u8) = ucast (a AND 0xff)"
    and "(ucast (drop_bit 8 h AND 0xff) :: u8) = ucast (drop_bit 8 b)"
    and "(ucast (h AND 0xff) :: u8) = ucast (b AND 0xff)"
  unfolding h_def mask8_u16 mask8_u32
  by (rule bit_word_eqI; auto simp: bit_simps dest: bit_imp_le_length)+

lemma uart_send_int_hex_bytes:
  "uart_send_int_hex x =
     uart_send_byte_hex (ucast (drop_bit 8 x)) @ uart_send_byte_hex (ucast (x AND 0xff))"
  unfolding uart_send_int_hex_def word_to_hex_def Let_def unpack4
  by (simp add: uart_send_byte_hex_def Let_def)

lemma join_word:
  "256 * ucast (ucast (drop_bit 8 w) :: u8) + ucast (ucast (w AND 0xff) :: u8) = (w::u16)"
proof -
  have "(ucast (ucast (drop_bit 8 w) :: u8) :: u16) = drop_bit 8 w"
    by (rule bit_word_eqI) (auto simp: bit_simps dest: bit_imp_le_length)
  then have "256 * ucast (ucast (drop_bit 8 w) :: u8) = push_bit 8 (drop_bit 8 w)"
    by (simp add: push_bit_eq_mult)
  moreover have "ucast (ucast (w AND 0xff) :: u8) = take_bit 8 w"
    unfolding mask8_u16
    by (rule bit_word_eqI) (auto simp: bit_simps dest: bit_imp_le_length)
  ultimately show ?thesis
    using bits_ident [of 8 w] by simp
qed

lemma hex_word_round_trip: "hex_word_to_dec (uart_send_int_hex w) = Some w"
  unfolding uart_send_int_hex_bytes hex_word_to_dec_def hex_byte_round_trip
  using hex_byte_round_trip [of "ucast (w AND 0xff)" "[]"]
  by (simp add: uart_send_byte_hex_nibbles join_word)

text \<open>
  Claim C8. Decoding the two hex digits printed for a byte gives the byte back, for
  every byte; decoding the four hex digits printed for a 16-bit word gives the word
  back, for every word. The digits are sent most significant first: the high nibble
  before the low nibble, the high byte before the low byte.
\<close>

theorem hex_round_trip:
  "hex_byte_to_dec (uart_send_byte_hex b) = Some b
   \<and> hex_word_to_dec (uart_send_int_hex w) = Some w
   \<and> uart_send_byte_hex b = [nibble_to_hex (drop_bit 4 b), nibble_to_hex (b AND 0xf)]
   \<and> uart_send_int_hex w =
       uart_send_byte_hex (ucast (drop_bit 8 w)) @ uart_send_byte_hex (ucast (w AND 0xff))"
  using hex_byte_round_trip [of b "[]"] hex_word_round_trip [of w]
    uart_send_byte_hex_nibbles [of b] uart_send_int_hex_bytes [of w]
  by simp

lemma lower_is_upper:
  "ascii CHR ''a'' \<le> c \<and> c \<le> ascii CHR ''f'' \<longrightarrow>
     hex_nibble_to_dec c = hex_nibble_to_dec (c - ascii CHR ''a'' + ascii CHR ''A'')"
  unfolding hex_nibble_to_dec_def
  by simp unat_arith

lemma hex_nibble_to_dec_le: "hex_nibble_to_dec c \<le> 15"
  unfolding hex_nibble_to_dec_def
  by simp unat_arith

text \<open>
  Claim C9. For every character: a lower-case hex letter decodes to the value of its
  upper-case counterpart, which is the letter's offset from \<^verbatim>\<open>'A'\<close> plus ten; a decimal
  digit decodes to its value; a character that is no hex digit decodes to 0, and no
  error is signalled. The result always fits in four bits.
\<close>

theorem hex_nibble_to_dec_values:
  "(ascii CHR ''a'' \<le> c \<and> c \<le> ascii CHR ''f'' \<longrightarrow>
      hex_nibble_to_dec c = hex_nibble_to_dec (c - ascii CHR ''a'' + ascii CHR ''A''))
   \<and> (ascii CHR ''A'' \<le> c \<and> c \<le> ascii CHR ''F'' \<longrightarrow>
        hex_nibble_to_dec c = c - ascii CHR ''A'' + 10)
   \<and> (ascii CHR ''0'' \<le> c \<and> c \<le> ascii CHR ''9'' \<longrightarrow>
        hex_nibble_to_dec c = c - ascii CHR ''0'')
   \<and> (\<not> is_hex_digit c \<longrightarrow> hex_nibble_to_dec c = 0)
   \<and> hex_nibble_to_dec c \<le> 15"
proof -
  have "ascii CHR ''A'' \<le> c \<and> c \<le> ascii CHR ''F'' \<longrightarrow>
          hex_nibble_to_dec c = c - ascii CHR ''A'' + 10"
    unfolding hex_nibble_to_dec_def by simp unat_arith
  moreover have "ascii CHR ''0'' \<le> c \<and> c \<le> ascii CHR ''9'' \<longrightarrow>
          hex_nibble_to_dec c = c - ascii CHR ''0''"
    unfolding hex_nibble_to_dec_def by simp
  moreover have "\<not> is_hex_digit c \<longrightarrow> hex_nibble_to_dec c = 0"
    unfolding hex_nibble_to_dec_def is_hex_digit_def by simp
  ultimately show ?thesis
    using lower_is_upper [of c] hex_nibble_to_dec_le [of c] by blast
qed

theorem hex_nibble_to_dec_values_witness:
  "hex_nibble_to_dec (ascii CHR ''c'') = hex_nibble_to_dec (ascii CHR ''C'')
   \<and> hex_nibble_to_dec (ascii CHR ''C'') = 12
   \<and> hex_nibble_to_dec (ascii CHR ''7'') = 7
   \<and> \<not> is_hex_digit (ascii CHR ''g'') \<and> hex_nibble_to_dec (ascii CHR ''g'') = 0"
  using hex_nibble_to_dec_values [of "ascii CHR ''c''"]
    hex_nibble_to_dec_values [of "ascii CHR ''C''"]
    hex_nibble_to_dec_values [of "ascii CHR ''7''"]
    hex_nibble_to_dec_values [of "ascii CHR ''g''"]
  by (simp add: is_hex_digit_def)

section \<open>Properties of the record decoder\<close>

subsection \<open>Reading the fields of a record\<close>

lemma hex_byte_to_dec_drop:
  "hex_byte_to_dec (drop k ln) = (if Suc k < length ln then Some (hex_field ln k) else None)"
proof (cases "Suc k < length ln")
  case True
  then have "drop k ln = ln ! k # ln ! Suc k # drop (Suc (Suc k)) ln"
    by (simp add: Cons_nth_drop_Suc)
  with True show ?thesis
    by (simp add: hex_byte_to_dec_def hex_field_def)
next
  case False
  then have "length (drop k ln) \<le> 1"
    by simp
  then have "hex_byte_to_dec (drop k ln) = None"
    by (cases "drop k ln" rule: list.exhaust; cases "tl (drop k ln)")
       (auto simp: hex_byte_to_dec_def split: list.splits)
  with False show ?thesis
    by simp
qed

lemma hex_word_to_dec_drop:
  "hex_word_to_dec (drop k ln) =
     (if k + 3 < length ln
      then Some (256 * ucast (hex_field ln k) + ucast (hex_field ln (k + 2))) else None)"
  by (simp add: hex_word_to_dec_def hex_byte_to_dec_drop add.commute)

lemma flash_byte_frame [simp]:
  "line (flash_byte a i b s) = line s"
  "len (flash_byte a i b s) = len s"
  "last_address (flash_byte a i b s) = last_address s"
  "uart_error (flash_byte a i b s) = uart_error s"
  "MCUSR (flash_byte a i b s) = MCUSR s"
  "r2 (flash_byte a i b s) = r2 s"
  "r3 (flash_byte a i b s) = r3 s"
  "wdt_enabled (flash_byte a i b s) = wdt_enabled s"
  by (simp_all add: flash_byte_def Let_def new_page_def write_current_page_def)

lemma data_loop_verify:
  "data_loop MODE_VERIFY a c i ck s = Inr (x, s') \<Longrightarrow> s' = s"
proof (induction "MODE_VERIFY" a c i ck s rule: data_loop.induct)
  case (1 address count i checksum s)
  from "1.prems" show ?case
    by (subst (asm) data_loop.simps) (auto split: if_splits option.splits dest: "1.hyps")
qed

lemma data_loop_line:
  "data_loop m a c i ck s = Inr (x, s') \<Longrightarrow> line s' = line s"
proof (induction m a c i ck s rule: data_loop.induct)
  case (1 mode address count i checksum s)
  from "1.prems" show ?case
    by (subst (asm) data_loop.simps)
       (auto split: if_splits option.splits mode.splits dest: "1.IH")
qed

lemma data_loop_flash_completes:
  "data_loop MODE_FLASH a c i ck s = Inr (x, s') \<Longrightarrow> \<exists>ck'. x = Completed ck'"
proof (induction "MODE_FLASH" a c i ck s rule: data_loop.induct)
  case (1 address count i checksum s)
  from "1.prems" show ?case
    by (subst (asm) data_loop.simps) (auto split: if_splits option.splits dest: "1.hyps")
qed

lemma data_loop_checksum:
  "data_loop m a c i ck s = Inr (Completed ck', s') \<Longrightarrow>
     ck' = ck + sum_list (map (rec_data (line s)) [i..<c])"
proof (induction m a c i ck s rule: data_loop.induct)
  case (1 mode address count i checksum s)
  show ?case
  proof (cases "i < count")
    case False
    with "1.prems" show ?thesis
      by (subst (asm) data_loop.simps) simp
  next
    case True
    then have upt: "[i..<count] = i # [Suc i..<count]"
      by (simp add: upt_conv_Cons)
    from "1.prems" True obtain b where rd: "hex_byte_to_dec (drop (9 + i * 2) (line s)) = Some b"
      by (subst (asm) data_loop.simps) (auto split: option.splits)
    then have b: "b = rec_data (line s) i"
      by (simp add: hex_byte_to_dec_drop rec_data_def split: if_splits)
    show ?thesis
    proof (cases mode)
      case MODE_FLASH
      with "1.prems" True rd
      have "data_loop mode address count (Suc i) (checksum + b) (flash_byte address i b s)
              = Inr (Completed ck', s')"
        by (subst (asm) data_loop.simps) simp
      from "1.IH"(1) [OF True rd MODE_FLASH this] show ?thesis
        by (simp add: upt b add.assoc)
    next
      case MODE_VERIFY
      with "1.prems" True rd
      have ne: "\<not> flash s (address + of_nat i) \<noteq> b"
        and "data_loop mode address count (Suc i) (checksum + b) s = Inr (Completed ck', s')"
        by (subst (asm) data_loop.simps, simp split: if_splits)+
      from "1.IH"(2) [OF True rd MODE_VERIFY ne this(2)] show ?thesis
        by (simp add: upt b add.assoc)
    qed
  qed
qed

lemma data_loop_in_bounds:
  "9 + c * 2 \<le> length (line s) \<Longrightarrow> \<exists>x s'. data_loop m a c i ck s = Inr (x, s')"
proof (induction m a c i ck s rule: data_loop.induct)
  case (1 mode address count i checksum s)
  show ?case
  proof (cases "i < count")
    case False
    then show ?thesis
      by (subst data_loop.simps) simp
  next
    case True
    with "1.prems" have "Suc (9 + i * 2) < length (line s)"
      by simp
    then have rd: "hex_byte_to_dec (drop (9 + i * 2) (line s)) = Some (hex_field (line s) (9 + i * 2))"
      by (simp add: hex_byte_to_dec_drop)
    show ?thesis
    proof (cases mode)
      case MODE_FLASH
      with True rd "1.prems" "1.IH"(1) [OF True rd MODE_FLASH] show ?thesis
        by (subst data_loop.simps) simp
    next
      case MODE_VERIFY
      with True rd "1.prems" "1.IH"(2) [OF True rd MODE_VERIFY] show ?thesis
        by (subst data_loop.simps) auto
    qed
  qed
qed


lemma data_loop_none: "data_loop m a 0 i ck s = Inr (Completed ck, s)"
  by (subst data_loop.simps) simp

lemma header_reads:
  assumes "record_fits ln"
  shows "hex_byte_to_dec (drop (Suc 0) ln) = Some (rec_count ln)"
    and "hex_word_to_dec (drop 3 ln) = Some (rec_address ln)"
    and "hex_byte_to_dec (drop 7 ln) = Some (rec_type ln)"
    and "hex_byte_to_dec (drop (9 + unat (rec_count ln) * 2) ln) = Some (rec_check ln)"
    and "9 + unat (rec_count ln) * 2 \<le> length ln"
  using assms
  by (simp_all add: record_fits_def hex_byte_to_dec_drop hex_word_to_dec_drop
        rec_count_def rec_address_def rec_type_def rec_check_def)

subsection \<open>Evaluation on concrete lines\<close>

lemma upd_num: "(x # xs)[numeral n := y] = x # xs[pred_numeral n := y]"
  by (simp add: numeral_eq_Suc)

lemma rep_num: "replicate (numeral n) x = x # replicate (pred_numeral n) x"
  by (simp add: numeral_eq_Suc)

lemmas eval_record =
  with_line_def buffer_of_def first_pass_state_def entry_state_def reset_state_def new_page_def
  record_fits_def record_checksum_def rec_count_def rec_address_def rec_type_def rec_data_def
  rec_check_def hex_field_def hex_nibble_to_dec_def

lemma bad_line_facts:
  "record_fits (buffer_of bad_checksum_line)"
  "record_checksum (buffer_of bad_checksum_line) = 0x56"
  "rec_count (buffer_of bad_checksum_line) = 1"
  by (simp_all add: bad_checksum_line_def eval_record upt_rec)

subsection \<open>Records with a wrong checksum\<close>

text \<open>
  Claim C1, as the specification states it, fails: in \<^verbatim>\<open>MODE_FLASH\<close> the data bytes
  are stored in the page buffer while they are summed, before the checksum is compared.
  The line \<^verbatim>\<open>:010000005500\<close> has checksum \<open>0x56\<close>; the call returns
  \<^verbatim>\<open>FLASH_ERROR\<close> and the first byte of the page buffer has changed from \<open>0xff\<close> to
  \<open>0x55\<close>.
\<close>

theorem bad_checksum_corrupts_page:
  "record_fits (line (with_line bad_checksum_line first_pass_state))
   \<and> record_checksum (line (with_line bad_checksum_line first_pass_state)) \<noteq> 0
   \<and> flash_hex_line MODE_FLASH (with_line bad_checksum_line first_pass_state) =
       Inr (FLASH_ERROR,
            (with_line bad_checksum_line first_pass_state)\<lparr>page := 0x55 # replicate 127 0xff\<rparr>)
   \<and> page (with_line bad_checksum_line first_pass_state) = replicate 128 0xff
   \<and> 0x55 # replicate 127 0xff \<noteq> (replicate 128 0xff :: u8 list)"
  apply (simp add: bad_line_facts with_line_def)
  apply (simp add: flash_hex_line_def hex_byte_to_dec_def hex_word_to_dec_def data_loop.simps flash_byte_def is_address_valid_def
    bad_checksum_line_def eval_record upt_rec)
  apply (simp add: rep_num)
  done


text \<open>
  Claim C1, amended. For every record that lies inside the line buffer and whose total
  checksum is not zero modulo 256, \<^verbatim>\<open>flash_hex_line\<close> returns \<^verbatim>\<open>FLASH_ERROR\<close>. The
  state, and with it the page buffer, is the same after the call as before it when the
  mode is \<^verbatim>\<open>MODE_VERIFY\<close>, when the record has no data bytes, or when it is a data
  record that the address check refuses.
\<close>

theorem flash_hex_line_bad_checksum:
  assumes fits: "record_fits (line s)"
    and bad: "record_checksum (line s) \<noteq> 0"
  shows "\<exists>s'. flash_hex_line mode s = Inr (FLASH_ERROR, s')
           \<and> (mode = MODE_VERIFY \<or> rec_count (line s) = 0
                 \<or> (rec_type (line s) = 0
                     \<and> \<not> is_address_valid (last_address s) (rec_address (line s)))
               \<longrightarrow> s' = s)"
proof -
  define ln where "ln = line s"
  define ck0 where
    "ck0 = rec_count ln + ucast (rec_address ln) + ucast (drop_bit 8 (rec_address ln)) + rec_type ln"
  note hd = header_reads [OF fits, folded ln_def]
  show ?thesis
  proof (cases "rec_type ln = 0 \<and> \<not> is_address_valid (last_address s) (rec_address ln)")
    case True
    then show ?thesis
      by (simp add: flash_hex_line_def hd(1-3) flip: ln_def)
  next
    case False
    from hd(5) obtain x s1
      where dl: "data_loop mode (rec_address ln) (unat (rec_count ln)) 0 ck0 s = Inr (x, s1)"
      using data_loop_in_bounds [of "unat (rec_count ln)" s mode "rec_address ln" 0 ck0]
      by (auto simp: ln_def)
    have ln1: "line s1 = ln"
      using data_loop_line [OF dl] by (simp add: ln_def)
    have same: "s1 = s" if "mode = MODE_VERIFY \<or> rec_count ln = 0"
      using that dl data_loop_verify [of "rec_address ln" "unat (rec_count ln)" 0 ck0 s x s1]
      by (auto simp: data_loop_none)
    show ?thesis
    proof (cases x)
      case Mismatch
      with dl have "mode = MODE_VERIFY"
        using data_loop_flash_completes [of "rec_address ln" "unat (rec_count ln)" 0 ck0 s x s1]
        by (cases mode) auto
      with Mismatch dl False same ln1 show ?thesis
        by (auto simp add: flash_hex_line_def hd(1-3) simp flip: ln_def ck0_def)
    next
      case (Completed ck')
      with dl have "ck' + rec_check ln = record_checksum ln"
        using data_loop_checksum [of mode "rec_address ln" "unat (rec_count ln)" 0 ck0 s ck' s1]
        by (simp add: record_checksum_def ck0_def ln_def)
      with bad have "ck' + rec_check ln \<noteq> 0"
        by (simp add: ln_def)
      with Completed dl False same ln1 show ?thesis
        by (auto simp add: flash_hex_line_def hd(1-4) simp flip: ln_def ck0_def)
    qed
  qed
qed


theorem flash_hex_line_bad_checksum_witness:
  "record_fits (line (with_line bad_checksum_line first_pass_state))
   \<and> record_checksum (line (with_line bad_checksum_line first_pass_state)) \<noteq> 0
   \<and> flash_hex_line MODE_VERIFY (with_line bad_checksum_line first_pass_state) =
       Inr (FLASH_ERROR, with_line bad_checksum_line first_pass_state)"
proof -
  have fits: "record_fits (line (with_line bad_checksum_line first_pass_state))"
    and bad: "record_checksum (line (with_line bad_checksum_line first_pass_state)) \<noteq> 0"
    by (simp_all add: bad_line_facts with_line_def)
  from flash_hex_line_bad_checksum [OF fits bad, of MODE_VERIFY] fits bad show ?thesis
    by auto
qed

subsection \<open>The verify mode changes nothing but the last address\<close>

lemma header_reads_short:
  assumes "hex_byte_to_dec (drop 7 ln) = Some t"
  shows "hex_byte_to_dec (drop (Suc 0) ln) = Some (rec_count ln)"
    and "hex_word_to_dec (drop 3 ln) = Some (rec_address ln)"
    and "t = rec_type ln"
  using assms
  by (simp_all add: hex_byte_to_dec_drop hex_word_to_dec_drop
        rec_count_def rec_address_def rec_type_def split: if_splits)

lemma verify_result:
  assumes "flash_hex_line MODE_VERIFY s = Inr (st, s')"
  shows "(st = FLASH_GOING_ON \<and>
            s' = s\<lparr>last_address := rec_address (line s) + ucast (rec_count (line s)) - 1\<rparr>)
         \<or> ((st = FLASH_OK \<or> st = FLASH_ERROR) \<and> s' = s)"
proof -
  from assms obtain t where t: "hex_byte_to_dec (drop 7 (line s)) = Some t"
    by (auto simp: flash_hex_line_def split: option.splits)
  note hd = header_reads_short [OF t]
  from assms show ?thesis
    by (auto simp: flash_hex_line_def hd(1,2) t hd(3) [symmetric]
             split: if_splits sum.splits prod.splits loop_exit.splits option.splits
             dest!: data_loop_verify)
qed

lemma flash_hex_line_returns:
  assumes "record_fits (line s)"
  shows "\<exists>st s'. flash_hex_line mode s = Inr (st, s')"
proof -
  define ln where "ln = line s"
  define ck0 where
    "ck0 = rec_count ln + ucast (rec_address ln) + ucast (drop_bit 8 (rec_address ln)) + rec_type ln"
  note hd = header_reads [OF assms, folded ln_def]
  from hd(5) obtain x s1
    where dl: "data_loop mode (rec_address ln) (unat (rec_count ln)) 0 ck0 s = Inr (x, s1)"
    using data_loop_in_bounds [of "unat (rec_count ln)" s mode "rec_address ln" 0 ck0]
    by (auto simp: ln_def)
  have ln1: "line s1 = ln"
    using data_loop_line [OF dl] by (simp add: ln_def)
  from dl ln1 show ?thesis
    by (cases x; cases mode)
       (auto simp add: flash_hex_line_def hd(1-4) simp flip: ln_def ck0_def)
qed

text \<open>
  Claim C10. In \<^verbatim>\<open>MODE_VERIFY\<close>, for every line, a call of \<^verbatim>\<open>flash_hex_line\<close> that
  returns leaves the page buffer, the staged page index and the program memory as they
  were and commits no page write. When it returns \<^verbatim>\<open>FLASH_GOING_ON\<close> (a record was
  verified) the state differs from the old one in the last address only; otherwise the
  state is unchanged. The call returns for every record that lies inside the line
  buffer.
\<close>

theorem verify_mode_frame:
  "(record_fits (line s) \<longrightarrow> (\<exists>st s'. flash_hex_line MODE_VERIFY s = Inr (st, s')))
   \<and> (\<forall>st s'. flash_hex_line MODE_VERIFY s = Inr (st, s') \<longrightarrow>
         page s' = page s \<and> current_page_address s' = current_page_address s
         \<and> flash s' = flash s \<and> page_writes s' = page_writes s
         \<and> (st = FLASH_GOING_ON \<longrightarrow>
               s' = s\<lparr>last_address :=
                        rec_address (line s) + ucast (rec_count (line s)) - 1\<rparr>)
         \<and> (st \<noteq> FLASH_GOING_ON \<longrightarrow> s' = s))"
  using flash_hex_line_returns [of s MODE_VERIFY] verify_result [of s]
  by fastforce

lemma erased_line_facts:
  "record_fits (buffer_of erased_byte_line)"
  "rec_address (buffer_of erased_byte_line) = 0"
  "rec_count (buffer_of erased_byte_line) = 1"
  by (simp_all add: erased_byte_line_def eval_record upt_rec)

lemma verify_erased:
  "flash_hex_line MODE_VERIFY (with_line erased_byte_line first_pass_state) =
     Inr (FLASH_GOING_ON, (with_line erased_byte_line first_pass_state)\<lparr>last_address := 0\<rparr>)"
  by (simp add: flash_hex_line_def hex_byte_to_dec_def hex_word_to_dec_def data_loop.simps
        is_address_valid_def erased_byte_line_def eval_record)

theorem verify_mode_frame_witness:
  "record_fits (line (with_line erased_byte_line first_pass_state))
   \<and> flash_hex_line MODE_VERIFY (with_line erased_byte_line first_pass_state) =
       Inr (FLASH_GOING_ON, (with_line erased_byte_line first_pass_state)\<lparr>last_address := 0\<rparr>)
   \<and> page ((with_line erased_byte_line first_pass_state)\<lparr>last_address := 0\<rparr>) =
       page (with_line erased_byte_line first_pass_state)"
  using verify_mode_frame [of "with_line erased_byte_line first_pass_state"] verify_erased
  by (simp add: erased_line_facts with_line_def)

subsection \<open>Records of other types\<close>

lemma type4_facts:
  "record_fits (buffer_of type4_line)"
  "record_checksum (buffer_of type4_line) = 0"
  "rec_type (buffer_of type4_line) = 4"
  by (simp_all add: type4_line_def eval_record upt_rec)

text \<open>
  Claim C3 against the code. The extended linear address record \<^verbatim>\<open>:020000040000FA\<close>
  has type 4 and a valid checksum. In \<^verbatim>\<open>MODE_FLASH\<close> the call stores its two payload
  bytes at offsets 0 and 1 of the page buffer and sets the last address to 1: the record
  is treated as data, not ignored.
\<close>

theorem non_data_record_flashed:
  "rec_type (line (with_line type4_line first_pass_state)) = 4
   \<and> record_checksum (line (with_line type4_line first_pass_state)) = 0
   \<and> page (with_line type4_line first_pass_state) = replicate 128 0xff
   \<and> last_address (with_line type4_line first_pass_state) = 0xffff
   \<and> flash_hex_line MODE_FLASH (with_line type4_line first_pass_state) =
       Inr (FLASH_GOING_ON,
            (with_line type4_line first_pass_state)
              \<lparr>page := 0 # 0 # replicate 126 0xff, last_address := 1\<rparr>)"
  apply (simp add: type4_facts with_line_def)
  apply (simp add: flash_hex_line_def hex_byte_to_dec_def hex_word_to_dec_def data_loop.simps flash_byte_def is_address_valid_def
    type4_line_def eval_record upt_rec)
  apply (simp add: rep_num)
  done


subsection \<open>The staged page and the page writes along a sequence of records\<close>

lemma flash_byte_walk:
  "(current_page_address (flash_byte a i b s), page_writes (flash_byte a i b s)) =
     (if (a + of_nat i) div of_nat PAGE_SIZE \<noteq> current_page_address s
      then ((a + of_nat i) div of_nat PAGE_SIZE,
            page_writes s @ [current_page_address s * of_nat PAGE_SIZE])
      else (current_page_address s, page_writes s))"
  by (simp add: flash_byte_def Let_def new_page_def write_current_page_def boot_page_write_def)

lemma data_loop_walk:
  "data_loop MODE_FLASH a c i ck s = Inr (x, s') \<Longrightarrow>
     (current_page_address s', page_writes s') =
        page_walk a c i (current_page_address s, page_writes s)
     \<and> last_address s' = last_address s"
proof (induction "MODE_FLASH" a c i ck s rule: data_loop.induct)
  case (1 address count i checksum s)
  show ?case
  proof (cases "i < count")
    case False
    with "1.prems" show ?thesis
      by (subst (asm) data_loop.simps, subst page_walk.simps) simp
  next
    case True
    from "1.prems" True obtain b where rd: "hex_byte_to_dec (drop (9 + i * 2) (line s)) = Some b"
      by (subst (asm) data_loop.simps) (auto split: option.splits)
    with "1.prems" True
    have "data_loop MODE_FLASH address count (Suc i) (checksum + b) (flash_byte address i b s)
            = Inr (x, s')"
      by (subst (asm) data_loop.simps) simp
    from "1.hyps"(1) [OF True rd refl this] True show ?thesis
      by (subst page_walk.simps) (simp add: flash_byte_walk)
  qed
qed

lemma flash_data_record:
  assumes fits: "record_fits (line s)"
    and data: "rec_type (line s) = 0"
    and sum: "record_checksum (line s) = 0"
    and valid: "is_address_valid (last_address s) (rec_address (line s))"
  shows "\<exists>s'. flash_hex_line MODE_FLASH s = Inr (FLASH_GOING_ON, s')
           \<and> last_address s' = rec_address (line s) + ucast (rec_count (line s)) - 1
           \<and> (current_page_address s', page_writes s') =
                page_walk (rec_address (line s)) (unat (rec_count (line s))) 0
                  (current_page_address s, page_writes s)"
proof -
  define ln where "ln = line s"
  define ck0 where
    "ck0 = rec_count ln + ucast (rec_address ln) + ucast (drop_bit 8 (rec_address ln)) + rec_type ln"
  note hd = header_reads [OF fits, folded ln_def]
  from hd(5) obtain x s1
    where dl: "data_loop MODE_FLASH (rec_address ln) (unat (rec_count ln)) 0 ck0 s = Inr (x, s1)"
    using data_loop_in_bounds [of "unat (rec_count ln)" s MODE_FLASH "rec_address ln" 0 ck0]
    by (auto simp: ln_def)
  from data_loop_flash_completes [OF dl] obtain ck' where x: "x = Completed ck'"
    by blast
  have ln1: "line s1 = ln"
    using data_loop_line [OF dl] by (simp add: ln_def)
  have "ck' + rec_check ln = record_checksum ln"
    using dl x data_loop_checksum [of MODE_FLASH "rec_address ln" "unat (rec_count ln)" 0 ck0 s ck' s1]
    by (simp add: record_checksum_def ck0_def ln_def)
  with sum have zero: "ck' + rec_check ln = 0"
    by (simp add: ln_def)
  from data_loop_walk [OF dl] dl [unfolded ck0_def] x ln1 zero data valid show ?thesis
    by (simp add: flash_hex_line_def hd(1-4) flip: ln_def)
qed

lemma flash_lines_walk:
  assumes "walk_lines ls (last_address s, current_page_address s, page_writes s) = Some t"
    and "fs = FLASH_WAITING \<or> fs = FLASH_GOING_ON"
  shows "\<exists>s'. flash_lines MODE_FLASH fs ls s = Inr (if ls = [] then fs else FLASH_GOING_ON, s')
           \<and> (last_address s', current_page_address s', page_writes s') = t"
  using assms
proof (induction ls arbitrary: s fs)
  case Nil
  then show ?case
    by simp
next
  case (Cons l ls)
  define ln where "ln = buffer_of l"
  define s0 where "s0 = with_line l s"
  have s0: "line s0 = ln" "last_address s0 = last_address s"
    "current_page_address s0 = current_page_address s" "page_writes s0 = page_writes s"
    by (simp_all add: s0_def ln_def with_line_def)
  from Cons.prems(1)
  have ok: "record_fits ln" "rec_type ln = 0" "record_checksum ln = 0"
    "is_address_valid (last_address s) (rec_address ln)"
    and rest: "walk_lines ls
          (rec_address ln + ucast (rec_count ln) - 1,
           page_walk (rec_address ln) (unat (rec_count ln)) 0
             (current_page_address s, page_writes s)) = Some t"
    by (simp_all add: Let_def ln_def split: if_splits)
  from flash_data_record [of s0] ok s0 obtain s1
    where s1: "flash_hex_line MODE_FLASH s0 = Inr (FLASH_GOING_ON, s1)"
      "last_address s1 = rec_address ln + ucast (rec_count ln) - 1"
      "(current_page_address s1, page_writes s1) =
         page_walk (rec_address ln) (unat (rec_count ln)) 0 (current_page_address s, page_writes s)"
    by auto
  from rest s1(2,3)
  have "walk_lines ls (last_address s1, current_page_address s1, page_writes s1) = Some t"
    by simp
  from Cons.IH [OF this, of FLASH_GOING_ON] obtain s'
    where "flash_lines MODE_FLASH FLASH_GOING_ON ls s1 =
             Inr (if ls = [] then FLASH_GOING_ON else FLASH_GOING_ON, s')"
      and "(last_address s', current_page_address s', page_writes s') = t"
    by auto
  with s1(1) Cons.prems(2) show ?case
    by (auto simp: s0_def)
qed

lemmas eval_walk = eval_record is_address_valid_def page_walk.simps upt_rec

lemma walk_regress:
  "walk_lines (take 2 regress_lines) (0xffff, 0, []) = Some (0xffff, 511, [0])"
  "walk_lines regress_lines (0xffff, 0, []) = Some (0, 0, [0, 65408])"
  by (simp_all add: regress_lines_def eval_walk)

lemma walk_image300:
  "walk_lines image300 (0xffff, 0, []) = Some (299, 2, [0, 128])"
  by (simp add: image300_def eval_walk)


subsection \<open>Page changes in flash mode\<close>

lemma word_pair_lo: "ucast (ucast (a::u8) OR push_bit 8 (ucast (b::u8)) :: u16) = a"
  by (rule bit_word_eqI) (auto simp: bit_simps dest: bit_imp_le_length)

lemma word_pair_hi: "ucast (drop_bit 8 (ucast (a::u8) OR push_bit 8 (ucast (b::u8)) :: u16)) = b"
  by (rule bit_word_eqI) (auto simp: bit_simps dest: bit_imp_le_length)

lemma word_pair_hi':
  "ucast (drop_bit 8 (ucast (a::u8)) OR drop_bit 8 (push_bit 8 (ucast (b::u8))) :: u16) = b"
  by (rule bit_word_eqI) (auto simp: bit_simps dest: bit_imp_le_length)

lemma of_nat_u16_inj:
  "j < 128 \<Longrightarrow> k < 128 \<Longrightarrow> (base + of_nat j = base + (of_nat k :: u16)) = (j = k)"
  by (simp add: word_of_nat_eq_iff take_bit_nat_eq_self)

lemma of_nat_u16_inj1:
  "j < 128 \<Longrightarrow> k < 127 \<Longrightarrow> (base + of_nat j = base + of_nat k + (1 :: u16)) = (j = Suc k)"
  using of_nat_u16_inj [of j "Suc k" base] by (simp add: ac_simps)

lemma fill_upto_Suc:
  "fill_upto (Suc n) base pg f =
     boot_page_fill (base + of_nat (2 * n))
       (ucast (pg ! (2 * n)) OR push_bit 8 (ucast (pg ! (2 * n + 1)))) (fill_upto n base pg f)"
  by (simp add: fill_upto_def)

lemma fill_upto_nth:
  "n \<le> 64 \<Longrightarrow> j < 2 * n \<Longrightarrow> fill_upto n base pg f (base + of_nat j) = pg ! j"
proof (induction n arbitrary: j)
  case 0
  then show ?case by simp
next
  case (Suc n)
  have "j < 2 * n \<or> j = 2 * n \<or> j = 2 * n + 1"
    using Suc.prems(2) by arith
  then consider "j < 2 * n" | "j = 2 * n" | "j = 2 * n + 1"
    by blast
  then show ?case
  proof cases
    case 1
    with Suc.prems have "base + of_nat j \<noteq> base + (of_nat (2 * n) :: u16)"
      "base + of_nat j \<noteq> base + (of_nat (2 * n) :: u16) + 1"
      using of_nat_u16_inj [of j "2 * n" base] of_nat_u16_inj1 [of j "2 * n" base]
      by simp_all
    with 1 Suc show ?thesis
      by (simp add: fill_upto_Suc boot_page_fill_def)
  next
    case 2
    with Suc.prems have "base + (of_nat (2 * n) :: u16) \<noteq> base + of_nat (2 * n) + 1"
      by simp
    with 2 show ?thesis
      by (simp add: fill_upto_Suc boot_page_fill_def word_pair_lo del: of_nat_mult of_nat_add)
  next
    case 3
    then show ?thesis
      by (simp add: fill_upto_Suc boot_page_fill_def word_pair_hi' add.assoc)
  qed
qed

lemma write_current_page_flash:
  "j < 128 \<Longrightarrow>
     flash (write_current_page s) (current_page_address s * 128 + of_nat j) = page s ! j"
  using fill_upto_nth [of 64 j "current_page_address s * 128" "page s"]
  by (simp add: write_current_page_def fill_words_def Let_def)


lemma first_pass_fields:
  "last_address first_pass_state = 0xffff"
  "current_page_address first_pass_state = 0"
  "page_writes first_pass_state = []"
  "page first_pass_state = replicate 128 0xff"
  "length (line first_pass_state) = 64"
  by (simp_all add: first_pass_state_def entry_state_def reset_state_def new_page_def)

lemma flash_lines_append:
  "flash_lines m fs (xs @ ys) s =
     (case flash_lines m fs xs s of
        Inl e \<Rightarrow> Inl e
      | Inr (fs', s') \<Rightarrow> flash_lines m fs' ys s')"
proof (induction xs arbitrary: fs s)
  case Nil
  then show ?case by simp
next
  case (Cons x xs)
  show ?case
  proof (cases "fs = FLASH_GOING_ON \<or> fs = FLASH_WAITING")
    case True
    with Cons.IH show ?thesis
      by (simp split: sum.splits prod.splits)
  next
    case False
    then show ?thesis
      by (cases ys) simp_all
  qed
qed

lemma flash_eof_record:
  "flash_hex_line MODE_FLASH (with_line eof_line s) =
     Inr (FLASH_OK,
          (new_page (write_current_page (with_line eof_line s)))
            \<lparr>current_page_address := 0, last_address := 0xffff\<rparr>)"
  by (simp add: flash_hex_line_def hex_byte_to_dec_def hex_word_to_dec_def data_loop.simps
        with_line_def buffer_of_def eof_line_def hex_nibble_to_dec_def)

lemma image300_flashed:
  "\<exists>s'. flash_lines MODE_FLASH FLASH_WAITING image300 first_pass_state = Inr (FLASH_GOING_ON, s')
     \<and> last_address s' = 299 \<and> current_page_address s' = 2 \<and> page_writes s' = [0, 128]"
  using flash_lines_walk [of image300 first_pass_state "(299, 2, [0, 128])" FLASH_WAITING]
    walk_image300
  by (auto simp: first_pass_fields image300_def)

lemma image300_flushes: "intermediate_flushes image300 first_pass_state = Some [0, 128]"
  using image300_flashed by (auto simp: intermediate_flushes_def first_pass_fields)

lemma image300_size: "image_size image300 = 300"
  by (simp add: image_size_def image300_def eval_record)

lemma image300_complete:
  "\<exists>s'. flash_lines MODE_FLASH FLASH_WAITING (image300 @ [eof_line]) first_pass_state
           = Inr (FLASH_OK, s')
     \<and> page_writes s' = [0, 128, 256]"
proof -
  from image300_flashed obtain s1
    where "flash_lines MODE_FLASH FLASH_WAITING image300 first_pass_state = Inr (FLASH_GOING_ON, s1)"
      and "current_page_address s1 = 2" and "page_writes s1 = [0, 128]"
    by blast
  then show ?thesis
    by (simp add: flash_lines_append flash_eof_record)
       (simp add: new_page_def write_current_page_def boot_page_write_def with_line_def)
qed

text \<open>
  Claim C6, as the specification states it, fails in its example. An image of 300
  contiguous bytes at address 0 does not fit in two pages of 128 bytes: it reaches into
  a third one, and flashing its data records commits two intermediate page writes, of
  the pages at byte addresses 0 and 128, not one.
\<close>

theorem image300_two_flushes:
  "image_size image300 = 300
   \<and> intermediate_flushes image300 first_pass_state = Some [0, 128]"
  using image300_size image300_flushes by simp

lemma data_loop_flash_step:
  assumes "i < count" and "hex_byte_to_dec (drop (9 + i * 2) (line s)) = Some b"
  shows "data_loop MODE_FLASH address count i ck s =
           data_loop MODE_FLASH address count (Suc i) (ck + b) (flash_byte address i b s)"
  using assms by (subst data_loop.simps) simp

text \<open>
  Claim C6, amended. In \<^verbatim>\<open>MODE_FLASH\<close>, for the data byte \<open>b\<close> at position \<open>i\<close> of a
  record: when \<^verbatim>\<open>address + i\<close> (in 16 bits) lies in another page than the staged one,
  the loop goes on from a state in which the staged page has been written (the trace has
  one more entry, the byte address of the old page, and the program memory of that page
  holds the old page buffer), the page buffer is \<open>0xff\<close> everywhere except for \<open>b\<close> at
  offset \<^verbatim>\<open>(address + i) % 128\<close>, and the staged page index is \<^verbatim>\<open>(address + i) / 128\<close>;
  when it lies in the staged page only the byte is stored. The image of 300 contiguous
  bytes at address 0 spans three pages and triggers exactly two intermediate page
  flushes; its end-of-file record flushes the third page.
\<close>

theorem page_change_flushes:
  "(i < count \<and> hex_byte_to_dec (drop (9 + i * 2) (line s)) = Some b
      \<and> (address + of_nat i) div of_nat PAGE_SIZE \<noteq> current_page_address s \<longrightarrow>
        data_loop MODE_FLASH address count i ck s =
          data_loop MODE_FLASH address count (Suc i) (ck + b) (flash_byte address i b s)
        \<and> page (flash_byte address i b s) =
            (replicate PAGE_SIZE 0xff)[unat ((address + of_nat i) mod of_nat PAGE_SIZE) := b]
        \<and> current_page_address (flash_byte address i b s) =
            (address + of_nat i) div of_nat PAGE_SIZE
        \<and> page_writes (flash_byte address i b s) =
            page_writes s @ [current_page_address s * of_nat PAGE_SIZE]
        \<and> (\<forall>j<PAGE_SIZE.
              flash (flash_byte address i b s)
                (current_page_address s * of_nat PAGE_SIZE + of_nat j) = page s ! j))
   \<and> (i < count \<and> hex_byte_to_dec (drop (9 + i * 2) (line s)) = Some b
      \<and> (address + of_nat i) div of_nat PAGE_SIZE = current_page_address s \<longrightarrow>
        data_loop MODE_FLASH address count i ck s =
          data_loop MODE_FLASH address count (Suc i) (ck + b)
            (s\<lparr>page := (page s)[unat ((address + of_nat i) mod of_nat PAGE_SIZE) := b]\<rparr>))
   \<and> image_size image300 = 300
   \<and> intermediate_flushes image300 first_pass_state = Some [0, 128]
   \<and> (\<exists>s'. flash_lines MODE_FLASH FLASH_WAITING (image300 @ [eof_line]) first_pass_state
              = Inr (FLASH_OK, s')
            \<and> page_writes s' = [0, 128, 256])"
proof -
  have change: "page (flash_byte address i b s) =
            (replicate PAGE_SIZE 0xff)[unat ((address + of_nat i) mod of_nat PAGE_SIZE) := b]
        \<and> current_page_address (flash_byte address i b s) =
            (address + of_nat i) div of_nat PAGE_SIZE
        \<and> page_writes (flash_byte address i b s) =
            page_writes s @ [current_page_address s * of_nat PAGE_SIZE]
        \<and> (\<forall>j<PAGE_SIZE.
              flash (flash_byte address i b s)
                (current_page_address s * of_nat PAGE_SIZE + of_nat j) = page s ! j)"
    if differs: "(address + of_nat i) div of_nat PAGE_SIZE \<noteq> current_page_address s"
  proof -
    have "flash (flash_byte address i b s) = flash (write_current_page s)"
      using differs by (simp add: flash_byte_def Let_def new_page_def)
    then have "\<forall>j<PAGE_SIZE.
              flash (flash_byte address i b s)
                (current_page_address s * of_nat PAGE_SIZE + of_nat j) = page s ! j"
      using write_current_page_flash [of _ s] by simp
    with differs show ?thesis
      by (simp add: flash_byte_def Let_def new_page_def write_current_page_def
            boot_page_write_def)
  qed
  have same: "flash_byte address i b s =
      s\<lparr>page := (page s)[unat ((address + of_nat i) mod of_nat PAGE_SIZE) := b]\<rparr>"
    if "(address + of_nat i) div of_nat PAGE_SIZE = current_page_address s"
    using that by (simp add: flash_byte_def Let_def)
  from change same data_loop_flash_step [of i count s b address ck]
    image300_size image300_flushes image300_complete
  show ?thesis
    by (intro conjI impI) simp_all
qed


lemma page1_line_byte:
  "hex_byte_to_dec (drop 9 (line (with_line page1_line first_pass_state))) = Some 0x80"
  by (simp add: hex_byte_to_dec_def page1_line_def eval_record)

theorem page_change_flushes_witness:
  "hex_byte_to_dec (drop 9 (line (with_line page1_line first_pass_state))) = Some 0x80
   \<and> current_page_address (with_line page1_line first_pass_state) = 0
   \<and> page (flash_byte 0x80 0 0x80 (with_line page1_line first_pass_state)) =
       (replicate PAGE_SIZE 0xff)[0 := 0x80]
   \<and> current_page_address (flash_byte 0x80 0 0x80 (with_line page1_line first_pass_state)) = 1
   \<and> page_writes (flash_byte 0x80 0 0x80 (with_line page1_line first_pass_state)) = [0]"
  using page_change_flushes
    [of 0 16 "with_line page1_line first_pass_state" "0x80" "0x80" 0]
    page1_line_byte
  by (simp add: with_line_def first_pass_fields)

subsection \<open>The address check\<close>

lemma refused_address:
  assumes "9 \<le> length (line s)" and "rec_type (line s) = 0"
    and "\<not> is_address_valid (last_address s) (rec_address (line s))"
  shows "flash_hex_line mode s = Inr (FLASH_ERROR, s)"
  using assms
  by (simp add: flash_hex_line_def hex_byte_to_dec_drop hex_word_to_dec_drop
        rec_type_def rec_address_def)

lemma address5_rejected:
  "flash_hex_line mode (with_line address5_line first_pass_state) =
     Inr (FLASH_ERROR, with_line address5_line first_pass_state)"
proof (rule refused_address)
  show "9 \<le> length (line (with_line address5_line first_pass_state))"
    by (simp add: with_line_def buffer_of_def)
  show "rec_type (line (with_line address5_line first_pass_state)) = 0"
    by (simp add: address5_line_def eval_record)
  show "\<not> is_address_valid (last_address (with_line address5_line first_pass_state))
          (rec_address (line (with_line address5_line first_pass_state)))"
    by (simp add: address5_line_def eval_record is_address_valid_def)
qed

lemma regress_third:
  "rec_type (buffer_of (regress_lines ! 2)) = 0"
  "rec_address (buffer_of (regress_lines ! 2)) = 0"
  by (simp_all add: regress_lines_def eval_record)

text \<open>
  Claim C2 against the code. The value \<open>0xffff\<close> of \<open>last_address\<close> means that no
  record has been processed, but it is also the end address of a record that ends at
  \<open>0xffff\<close>. After a one-byte data record at address 0 and a one-byte data record at
  address \<open>0xffff\<close> the last address is \<open>0xffff\<close>; a third data record at address 0
  regresses below it and is accepted: the status stays \<^verbatim>\<open>FLASH_GOING_ON\<close>.
\<close>

theorem address_regression_accepted:
  "(\<exists>s2. flash_lines MODE_FLASH FLASH_WAITING (take 2 regress_lines) first_pass_state
            = Inr (FLASH_GOING_ON, s2)
          \<and> last_address s2 = 0xffff)
   \<and> rec_type (buffer_of (regress_lines ! 2)) = 0
   \<and> rec_address (buffer_of (regress_lines ! 2)) = 0
   \<and> (\<exists>s3. flash_lines MODE_FLASH FLASH_WAITING regress_lines first_pass_state
            = Inr (FLASH_GOING_ON, s3)
          \<and> last_address s3 = 0)"
proof -
  have "\<exists>s2. flash_lines MODE_FLASH FLASH_WAITING (take 2 regress_lines) first_pass_state
            = Inr (FLASH_GOING_ON, s2) \<and> last_address s2 = 0xffff"
    using flash_lines_walk
      [of "take 2 regress_lines" first_pass_state "(0xffff, 511, [0])" FLASH_WAITING]
      walk_regress(1)
    by (auto simp: first_pass_fields regress_lines_def)
  moreover
  have "\<exists>s3. flash_lines MODE_FLASH FLASH_WAITING regress_lines first_pass_state
            = Inr (FLASH_GOING_ON, s3) \<and> last_address s3 = 0"
    using flash_lines_walk
      [of regress_lines first_pass_state "(0, 0, [0, 65408])" FLASH_WAITING]
      walk_regress(2)
    by (auto simp: first_pass_fields regress_lines_def)
  ultimately show ?thesis
    using regress_third by blast
qed


section \<open>Properties of the line reader\<close>

lemmas eval_get_line =
  loop_body_def get_line_def line_store_def upd_num rep_num
  first_pass_state_def entry_state_def reset_state_def new_page_def

lemma long_line_overrun:
  "pass_loop MODE_FLASH FLASH_WAITING first_pass_state long_input = Pass_Stopped (Overrun 64)"
  by (simp add: long_input_def eval_get_line)

lemma long_line_len:
  "\<exists>s. pass_loop MODE_FLASH FLASH_WAITING first_pass_state (butlast long_input)
          = Pass_Starved FLASH_WAITING s
       \<and> len s = 64 \<and> length (line s) = 64"
  by (simp add: long_input_def eval_get_line)

text \<open>
  Claim C7 against the code. From the start of the first pass, 64 letters bring \<open>len\<close>
  to 64: the 64th one finds \<^verbatim>\<open>len == MAX_LINE_LEN - 1\<close>, stores the terminator at
  \<^verbatim>\<open>line[63]\<close> and increments \<open>len\<close>. The carriage return that follows then executes
  \<^verbatim>\<open>line[len] = '\0'\<close> with \<open>len\<close> = 64, one element past the end of the 64-byte
  buffer.
\<close>

theorem get_line_overrun:
  "length (line first_pass_state) = MAX_LINE_LEN
   \<and> (\<exists>s. pass_loop MODE_FLASH FLASH_WAITING first_pass_state (butlast long_input)
             = Pass_Starved FLASH_WAITING s
           \<and> len s = 64 \<and> length (line s) = MAX_LINE_LEN)
   \<and> pass_loop MODE_FLASH FLASH_WAITING first_pass_state long_input
       = Pass_Stopped (Overrun MAX_LINE_LEN)"
  using long_line_overrun long_line_len
  by (simp add: first_pass_fields)

section \<open>Properties of the boot sequence\<close>

lemma q_run:
  "pass_loop MODE_FLASH FLASH_WAITING first_pass_state q_input = Pass_Stopped (Reboot q_final)"
  by (simp add: q_input_def q_final_def eval_get_line run_command_def reboot_to_app_def
        wdt_enable_def)

lemma q_final_fields: "BOOT_APP q_final" "wdt_enabled q_final"
  by (simp_all add: q_final_def BOOT_APP_def)

lemma main_enters_bootloader:
  "main reset_state input = Bootloader (bootloader entry_state input)"
  by (simp add: main_def reset_state_def entry_state_def BV_def BOOT_APP_def Let_def)

text \<open>
  Claim C4, as the specification states it, fails in its last part. After an external
  reset \<^verbatim>\<open>main\<close> runs the bootloader; the command \<^verbatim>\<open>q\<close> typed at the first prompt
  calls \<^verbatim>\<open>reboot_to_app\<close>, which sets the signature to the magic pair and arms the
  watchdog, although the flash pass has not ended and no record was flashed or verified.
\<close>

theorem q_command_boots_app:
  "main reset_state q_input = Bootloader (bootloader entry_state q_input)
   \<and> pass_loop MODE_FLASH FLASH_WAITING (new_page entry_state) q_input
       = Pass_Stopped (Reboot q_final)
   \<and> bootloader entry_state q_input = Halt (Reboot q_final)
   \<and> r2 q_final = BOOTAPP_SIG_1 \<and> r3 q_final = BOOTAPP_SIG_2 \<and> wdt_enabled q_final"
  using q_run main_enters_bootloader [of q_input]
  by (simp add: bootloader_def q_final_def flip: first_pass_state_def)

lemma reboot_to_bootloader_eq:
  "reboot_to_bootloader s = Reboot (s\<lparr>r2 := 0, r3 := 0, wdt_enabled := True\<rparr>)"
  by (simp add: reboot_to_bootloader_def reboot_def wdt_enable_def)

lemma reboot_to_app_eq:
  "reboot_to_app s =
     Reboot (s\<lparr>r2 := BOOTAPP_SIG_1, r3 := BOOTAPP_SIG_2, wdt_enabled := True\<rparr>)"
  by (simp add: reboot_to_app_def wdt_enable_def)

lemma get_line_stop:
  "get_line rx s = Inl (Reboot s') \<Longrightarrow> \<not> BOOT_APP s'"
  by (auto simp: get_line_def line_store_def reboot_to_bootloader_eq BOOT_APP_def
           split: if_splits option.splits sum.splits)

lemma data_loop_stop: "data_loop m a c i ck s \<noteq> Inl (Reboot s')"
proof (induction m a c i ck s rule: data_loop.induct)
  case (1 mode address count i checksum s)
  show ?case
    by (subst data_loop.simps)
       (use "1.IH" in \<open>auto split: option.splits mode.splits\<close>)
qed

lemma flash_hex_line_stop: "flash_hex_line mode s \<noteq> Inl (Reboot s')"
  using data_loop_stop
  by (auto simp: flash_hex_line_def
           split: option.splits sum.splits prod.splits loop_exit.splits mode.splits)

lemma run_command_stop:
  "run_command s = Inl (Reboot s') \<Longrightarrow> BOOT_APP s' \<Longrightarrow> \<exists>cs. line s' = ascii CHR ''q'' # cs"
  by (auto simp: run_command_def reboot_to_bootloader_eq reboot_to_app_eq BOOT_APP_def
           split: list.splits if_splits)

lemma loop_body_stop:
  "loop_body mode fs rx s = Inl (Reboot s') \<Longrightarrow> BOOT_APP s' \<Longrightarrow>
     \<exists>cs. line s' = ascii CHR ''q'' # cs"
  using get_line_stop [of rx s s'] flash_hex_line_stop run_command_stop
  by (auto simp: loop_body_def split: sum.splits prod.splits if_splits list.splits)

lemma pass_loop_stop:
  "pass_loop mode fs s input = Pass_Stopped (Reboot s') \<Longrightarrow> BOOT_APP s' \<Longrightarrow>
     \<exists>cs. line s' = ascii CHR ''q'' # cs"
proof (induction input arbitrary: fs s)
  case Nil
  then show ?case
    using loop_body_stop [of mode fs None s s']
    by (auto split: sum.splits prod.splits)
next
  case (Cons c cs)
  show ?case
  proof (cases "loop_body mode fs (Some c) s")
    case (Inl e)
    with Cons.prems show ?thesis
      using loop_body_stop [of mode fs "Some c" s s'] by simp
  next
    case (Inr r)
    with Cons.prems Cons.IH [of "fst r" "snd r"] show ?thesis
      by (cases r) (auto split: if_splits)
  qed
qed

lemma pass_loop_ended:
  "pass_loop mode fs s input = Pass_Ended fs' s' rest \<Longrightarrow> fs' = FLASH_OK \<or> fs' = FLASH_ERROR"
proof (induction input arbitrary: fs s)
  case Nil
  then show ?case
    by (auto split: sum.splits prod.splits)
next
  case (Cons c cs)
  show ?case
  proof (cases "loop_body mode fs (Some c) s")
    case (Inl e)
    with Cons.prems show ?thesis by simp
  next
    case (Inr r)
    with Cons.prems Cons.IH [of "fst r" "snd r"] show ?thesis
      by (cases r; cases "fst r") (auto split: if_splits)
  qed
qed

text \<open>
  Claim C4, amended. When the flash pass ends with a status other than \<^verbatim>\<open>FLASH_OK\<close>
  the status is \<^verbatim>\<open>FLASH_ERROR\<close> and \<^verbatim>\<open>bootloader\<close> stops there, in the state the pass
  left, with the signature zero/zero and the watchdog armed: the verify pass does not
  run. When the flash pass ends OK and the verify pass does not, the same holds, and
  \<^verbatim>\<open>reboot_to_app\<close> is not reached. When \<^verbatim>\<open>bootloader\<close> stops for a reboot with the
  signature of the application, either both passes have ended with \<^verbatim>\<open>FLASH_OK\<close>, or
  the line buffer holds the command \<^verbatim>\<open>q\<close>, by which the operator asked for it.
\<close>

theorem failed_pass_reboots_to_bootloader:
  "(pass_loop MODE_FLASH FLASH_WAITING (new_page s) input = Pass_Ended fs s1 rest
      \<and> fs \<noteq> FLASH_OK \<longrightarrow>
        fs = FLASH_ERROR
        \<and> bootloader s input = Halt (Reboot (s1\<lparr>r2 := 0, r3 := 0, wdt_enabled := True\<rparr>)))
   \<and> (pass_loop MODE_FLASH FLASH_WAITING (new_page s) input = Pass_Ended FLASH_OK s1 rest
      \<and> pass_loop MODE_VERIFY FLASH_WAITING s1 rest = Pass_Ended fs s2 rest2
      \<and> fs \<noteq> FLASH_OK \<longrightarrow>
        fs = FLASH_ERROR
        \<and> bootloader s input = Halt (Reboot (s2\<lparr>r2 := 0, r3 := 0, wdt_enabled := True\<rparr>)))
   \<and> (bootloader s input = Halt (Reboot s') \<and> BOOT_APP s' \<longrightarrow>
        (\<exists>t1 rest1 t2 rest2.
            pass_loop MODE_FLASH FLASH_WAITING (new_page s) input = Pass_Ended FLASH_OK t1 rest1
            \<and> pass_loop MODE_VERIFY FLASH_WAITING t1 rest1 = Pass_Ended FLASH_OK t2 rest2
            \<and> s' = t2\<lparr>r2 := BOOTAPP_SIG_1, r3 := BOOTAPP_SIG_2, wdt_enabled := True\<rparr>)
        \<or> (\<exists>cs. line s' = ascii CHR ''q'' # cs))"
proof (intro conjI impI)
  assume a: "pass_loop MODE_FLASH FLASH_WAITING (new_page s) input = Pass_Ended fs s1 rest
      \<and> fs \<noteq> FLASH_OK"
  with pass_loop_ended [of MODE_FLASH FLASH_WAITING "new_page s" input fs s1 rest]
  show "fs = FLASH_ERROR" by blast
  from a show "bootloader s input = Halt (Reboot (s1\<lparr>r2 := 0, r3 := 0, wdt_enabled := True\<rparr>))"
    by (simp add: bootloader_def reboot_to_bootloader_eq)
next
  assume a: "pass_loop MODE_FLASH FLASH_WAITING (new_page s) input = Pass_Ended FLASH_OK s1 rest
      \<and> pass_loop MODE_VERIFY FLASH_WAITING s1 rest = Pass_Ended fs s2 rest2
      \<and> fs \<noteq> FLASH_OK"
  with pass_loop_ended [of MODE_VERIFY FLASH_WAITING s1 rest fs s2 rest2]
  show "fs = FLASH_ERROR" by blast
  from a show "bootloader s input = Halt (Reboot (s2\<lparr>r2 := 0, r3 := 0, wdt_enabled := True\<rparr>))"
    by (simp add: bootloader_def reboot_to_bootloader_eq)
next
  assume a: "bootloader s input = Halt (Reboot s') \<and> BOOT_APP s'"
  then have app: "BOOT_APP s'" by simp
  show "(\<exists>t1 rest1 t2 rest2.
            pass_loop MODE_FLASH FLASH_WAITING (new_page s) input = Pass_Ended FLASH_OK t1 rest1
            \<and> pass_loop MODE_VERIFY FLASH_WAITING t1 rest1 = Pass_Ended FLASH_OK t2 rest2
            \<and> s' = t2\<lparr>r2 := BOOTAPP_SIG_1, r3 := BOOTAPP_SIG_2, wdt_enabled := True\<rparr>)
        \<or> (\<exists>cs. line s' = ascii CHR ''q'' # cs)"
  proof (cases "pass_loop MODE_FLASH FLASH_WAITING (new_page s) input")
    case (Pass_Stopped e)
    with a pass_loop_stop [of MODE_FLASH FLASH_WAITING "new_page s" input s'] show ?thesis
      by (simp add: bootloader_def)
  next
    case (Pass_Starved f t)
    with a show ?thesis
      by (simp add: bootloader_def)
  next
    case p1: (Pass_Ended f1 t1 rest1)
    show ?thesis
    proof (cases "f1 = FLASH_OK")
      case False
      with a p1 app show ?thesis
        by (auto simp: bootloader_def reboot_to_bootloader_eq BOOT_APP_def)
    next
      case ok1: True
      show ?thesis
      proof (cases "pass_loop MODE_VERIFY FLASH_WAITING t1 rest1")
        case (Pass_Stopped e)
        with a p1 ok1 pass_loop_stop [of MODE_VERIFY FLASH_WAITING t1 rest1 s'] show ?thesis
          by (simp add: bootloader_def)
      next
        case (Pass_Starved f t)
        with a p1 ok1 show ?thesis
          by (simp add: bootloader_def)
      next
        case p2: (Pass_Ended f2 t2 rest2)
        show ?thesis
        proof (cases "f2 = FLASH_OK")
          case False
          with a p1 ok1 p2 app show ?thesis
            by (auto simp: bootloader_def reboot_to_bootloader_eq BOOT_APP_def)
        next
          case True
          with a p1 ok1 p2 show ?thesis
            by (auto simp: bootloader_def reboot_to_app_eq)
        qed
      qed
    qed
  qed
qed


lemma address5_pass:
  "\<exists>s1. pass_loop MODE_FLASH FLASH_WAITING (new_page entry_state) (serial [address5_line])
          = Pass_Ended FLASH_ERROR s1 []"
  by (simp add: serial_def address5_line_def eval_get_line flash_hex_line_def
        hex_byte_to_dec_def hex_word_to_dec_def hex_nibble_to_dec_def is_address_valid_def)

theorem failed_pass_reboots_to_bootloader_witness:
  "(\<exists>s1. pass_loop MODE_FLASH FLASH_WAITING (new_page entry_state) (serial [address5_line])
           = Pass_Ended FLASH_ERROR s1 []
         \<and> bootloader entry_state (serial [address5_line])
             = Halt (Reboot (s1\<lparr>r2 := 0, r3 := 0, wdt_enabled := True\<rparr>)))
   \<and> bootloader entry_state q_input = Halt (Reboot q_final)
   \<and> BOOT_APP q_final
   \<and> (\<exists>cs. line q_final = ascii CHR ''q'' # cs)"
proof -
  from address5_pass obtain s1
    where s1: "pass_loop MODE_FLASH FLASH_WAITING (new_page entry_state) (serial [address5_line])
                 = Pass_Ended FLASH_ERROR s1 []"
    by blast
  have q: "bootloader entry_state q_input = Halt (Reboot q_final)"
    using q_run by (simp add: bootloader_def flip: first_pass_state_def)
  have "bootloader entry_state (serial [address5_line])
          = Halt (Reboot (s1\<lparr>r2 := 0, r3 := 0, wdt_enabled := True\<rparr>))"
    using s1 failed_pass_reboots_to_bootloader
      [where s = entry_state and input = "serial [address5_line]" and fs = FLASH_ERROR
         and ?s1.0 = s1 and rest = "[]"]
    by simp
  moreover have "\<exists>cs. line q_final = ascii CHR ''q'' # cs"
    using q q_final_fields(1) q_run
      failed_pass_reboots_to_bootloader
        [where s = entry_state and input = q_input and s' = q_final]
    by (auto simp flip: first_pass_state_def)
  ultimately show ?thesis
    using s1 q q_final_fields(1) by blast
qed


subsection \<open>The decision at reset\<close>

lemma reset_flags:
  "(x AND (BV EXTRF OR BV WDRF) = 0) = (x AND BV EXTRF = 0 \<and> x AND BV WDRF = 0)"
  by (simp add: bit.conj_disj_distrib or_eq_0_iff)

text \<open>
  Claim C5. For every value of the reset-cause flags and of the signature, \<^verbatim>\<open>main\<close>
  jumps to the application if and only if neither the external-reset nor the
  watchdog-reset flag is set, or the signature is the pair \<open>(0xb0, 0xaa)\<close>; the
  signature is then zero/zero at the jump. In every other case the signature is set to
  the pair and the bootloader runs.
\<close>

theorem main_decision:
  "((\<exists>s'. main s input = Jump_To_App s') \<longleftrightarrow>
      (MCUSR s AND BV EXTRF = 0 \<and> MCUSR s AND BV WDRF = 0)
      \<or> (r2 s = BOOTAPP_SIG_1 \<and> r3 s = BOOTAPP_SIG_2))
   \<and> (\<forall>s'. main s input = Jump_To_App s' \<longrightarrow> r2 s' = 0 \<and> r3 s' = 0)
   \<and> (\<not> ((MCUSR s AND BV EXTRF = 0 \<and> MCUSR s AND BV WDRF = 0)
          \<or> (r2 s = BOOTAPP_SIG_1 \<and> r3 s = BOOTAPP_SIG_2)) \<longrightarrow>
        main s input =
          Bootloader (bootloader (s\<lparr>r2 := BOOTAPP_SIG_1, r3 := BOOTAPP_SIG_2\<rparr>) input))"
  unfolding main_def Let_def reset_flags
  by (auto simp: BOOT_APP_def wdt_disable_def)

theorem main_decision_witness:
  "(\<exists>s'. main (reset_state\<lparr>MCUSR := 1\<rparr>) q_input = Jump_To_App s' \<and> r2 s' = 0 \<and> r3 s' = 0)
   \<and> (\<exists>s'. main (entry_state\<lparr>MCUSR := BV WDRF\<rparr>) q_input = Jump_To_App s'
          \<and> r2 s' = 0 \<and> r3 s' = 0)
   \<and> main reset_state q_input = Bootloader (bootloader entry_state q_input)"
proof -
  have "\<exists>s'. main (reset_state\<lparr>MCUSR := 1\<rparr>) q_input = Jump_To_App s'"
    using main_decision [of "reset_state\<lparr>MCUSR := 1\<rparr>" q_input]
    by (simp add: reset_state_def BV_def)
  moreover have "\<exists>s'. main (entry_state\<lparr>MCUSR := BV WDRF\<rparr>) q_input = Jump_To_App s'"
    using main_decision [of "entry_state\<lparr>MCUSR := BV WDRF\<rparr>" q_input]
    by (simp add: entry_state_def)
  moreover have "main reset_state q_input = Bootloader (bootloader entry_state q_input)"
    using main_decision [of reset_state q_input]
    by (simp add: reset_state_def entry_state_def BV_def)
  ultimately show ?thesis
    using main_decision [of "reset_state\<lparr>MCUSR := 1\<rparr>" q_input]
      main_decision [of "entry_state\<lparr>MCUSR := BV WDRF\<rparr>" q_input]
    by blast
qed


end
